theory Spec2Isabelle
  imports Complex_Main "HOL-Library.Multiset"
begin

section \<open>Python exceptions raised by the modelled code\<close>

datatype error =
    IndexError
  | ZeroDivisionError
  | OverflowError
  | ValueError
  | KeyError
  | AssertionError
  | OSError
  | FileNotFoundError
  | FileExistsError
  | IsADirectoryError
  | NotADirectoryError

section \<open>Python floats\<close>

text \<open>
  A float is taken as the rational number it stands for. \<open>binary_round p emin x\<close> is the
  member of the binary format with \<open>p\<close> significant bits and least normal exponent
  \<open>emin\<close> that lies nearest to \<open>x\<close>, ties going to the even significand: with \<open>e\<close> the
  exponent of \<open>x\<close> (not below \<open>emin\<close>, where the subnormal numbers begin), the members near
  \<open>x\<close> are the multiples of \<open>2 ^ (e - p + 1)\<close>. The format's upper end is tested by the
  caller.
\<close>

text \<open>For an integer \<open>n > 0\<close>, the \<open>e\<close> with \<open>2 ^ e \<le> n < 2 ^ (e + 1)\<close>.\<close>

function log2_floor :: "int \<Rightarrow> nat" where
  "log2_floor n = (if n < 2 then 0 else Suc (log2_floor (n div 2)))"
  by pat_completeness auto
termination
  by (relation "measure nat") auto

declare log2_floor.simps [simp del]

definition pow2 :: "int \<Rightarrow> rat" where
  "pow2 k = (if 0 \<le> k then 2 ^ nat k else 1 / 2 ^ nat (- k))"

text \<open>For \<open>x > 0\<close>, the \<open>e\<close> with \<open>2 ^ e \<le> x < 2 ^ (e + 1)\<close>.\<close>

definition binary_exponent :: "rat \<Rightarrow> int" where
  "binary_exponent x =
     (if 1 \<le> x then int (log2_floor \<lfloor>x\<rfloor>)
      else - int (Suc (log2_floor (\<lceil>1 / x\<rceil> - 1))))"

definition round_half_even :: "rat \<Rightarrow> int" where
  "round_half_even y =
     (let f = \<lfloor>y\<rfloor>; r = y - of_int f
      in if r < 1 / 2 then f
         else if 1 / 2 < r then f + 1
         else if even f then f else f + 1)"

definition binary_round :: "nat \<Rightarrow> int \<Rightarrow> rat \<Rightarrow> rat" where
  "binary_round p emin x =
     (if x = 0 then 0
      else
        let q = pow2 (max (binary_exponent \<bar>x\<bar>) emin - int p + 1)
        in sgn x * of_int (round_half_even (\<bar>x\<bar> / q)) * q)"

text \<open>Double precision, the format of a Python float.\<close>

definition float64 :: "rat \<Rightarrow> rat" where
  "float64 x = binary_round 53 (- 1022) x"

text \<open>Single precision, the format of a PostgreSQL \<^verbatim>\<open>REAL\<close>.\<close>

definition float32 :: "rat \<Rightarrow> rat" where
  "float32 x = binary_round 24 (- 126) x"

text \<open>
  \<^verbatim>\<open>a / b\<close> of two Python ints: the quotient rounded once to a float;
  \<^verbatim>\<open>ZeroDivisionError\<close> for \<open>b = 0\<close>, \<^verbatim>\<open>OverflowError\<close> when the rounded quotient has an
  exponent above 1023, the largest of the format.
\<close>

definition py_truediv :: "int \<Rightarrow> int \<Rightarrow> error + rat" where
  "py_truediv a b =
     (if b = 0 then Inl ZeroDivisionError
      else
        let r = float64 (of_int a / of_int b)
        in if 1023 < binary_exponent \<bar>r\<bar> then Inl OverflowError else Inr r)"

section \<open>Batch partitioner and dispatcher (mypy-pre.py, mypy_pre2.py)\<close>

text \<open>
  A command is the two-element list \<^verbatim>\<open>[["mypy", p1, ..., pk], cost]\<close> of the scripts:
  the argument vector of one worker invocation and the running byte count of the
  files put into it. File sizes are what \<^verbatim>\<open>os.path.getsize\<close> returns, natural numbers.
\<close>

type_synonym path = string
type_synonym command = "string list \<times> nat"

text \<open>
  \<^verbatim>\<open>target_size = math.ceil(sum(sizes)/num_procs)\<close>: the sum is an exact int, the
  quotient a float, and \<^verbatim>\<open>math.ceil\<close> gives the least int not below that float.
\<close>

definition target_size :: "nat list \<Rightarrow> nat \<Rightarrow> error + nat" where
  "target_size sizes num_procs =
     (case py_truediv (int (sum_list sizes)) (int num_procs) of
        Inl e \<Rightarrow> Inl e
      | Inr r \<Rightarrow> Inr (nat \<lceil>r\<rceil>))"

text \<open>
  The greedy fill loop
  \<^verbatim>\<open>
    append_idx = 0
    for i in range(len(paths)):
        if commands[append_idx][1] >= target_size:
            append_idx += 1
        commands[append_idx][0].append(paths[i])
        commands[append_idx][1] += sizes[i]
  \<close>
  over the remaining (path, size) pairs, with the loop state \<open>(commands, append_idx)\<close>.
  Both subscripts \<^verbatim>\<open>commands[append_idx]\<close> raise \<^verbatim>\<open>IndexError\<close> out of range.
\<close>

fun fill_commands ::
  "nat \<Rightarrow> (path \<times> nat) list \<Rightarrow> command list \<Rightarrow> nat \<Rightarrow> error + command list \<times> nat" where
  "fill_commands target [] commands append_idx = Inr (commands, append_idx)"
| "fill_commands target ((p, s) # rest) commands append_idx =
     (if length commands \<le> append_idx then Inl IndexError
      else
        let idx = (if target \<le> snd (commands ! append_idx) then append_idx + 1 else append_idx)
        in if length commands \<le> idx then Inl IndexError
           else fill_commands target rest
                  (commands[idx := (fst (commands ! idx) @ [p], snd (commands ! idx) + s)])
                  idx)"

text \<open>
  The partitioner shared by both scripts: target, \<open>num_procs\<close> fresh commands
  \<^verbatim>\<open>[["mypy"], 0]\<close>, then the fill loop. \<^verbatim>\<open>sum(sizes)/num_procs\<close> raises
  \<^verbatim>\<open>ZeroDivisionError\<close> when \<open>num_procs\<close> is 0.
\<close>

definition partition_commands :: "nat \<Rightarrow> path list \<Rightarrow> nat list \<Rightarrow> error + command list" where
  "partition_commands num_procs paths sizes =
     (case target_size sizes num_procs of
        Inl e \<Rightarrow> Inl e
      | Inr target \<Rightarrow>
          (case fill_commands target (zip paths sizes)
                  (replicate num_procs ([''mypy''], 0)) 0 of
             Inl e \<Rightarrow> Inl e
           | Inr (commands, append_idx) \<Rightarrow> Inr commands))"

text \<open>\<^verbatim>\<open>submit_commands = [cmd[0] for cmd in commands if len(cmd[0]) > 1]\<close>\<close>

definition submit_commands :: "command list \<Rightarrow> string list list" where
  "submit_commands commands = map fst (filter (\<lambda>cmd. 1 < length (fst cmd)) commands)"

text \<open>
  \<^verbatim>\<open>execute_commands\<close>: a process pool with one worker per command, which refuses a size
  of zero with \<^verbatim>\<open>ValueError\<close>; the pool is left only when every command has finished.
  The worker command itself (\<^verbatim>\<open>execute_command\<close>, a subprocess) is a parameter.
\<close>

definition execute_commands :: "(string list \<Rightarrow> 'r) \<Rightarrow> string list list \<Rightarrow> error + 'r list" where
  "execute_commands execute_command paths_list =
     (if length paths_list = 0 then Inl ValueError
      else Inr (map execute_command paths_list))"

text \<open>The commands built by \<^verbatim>\<open>process_layer\<close> of mypy_pre2.py (\<open>num_procs = min(16, len(paths))\<close>).\<close>

definition process_layer_commands :: "(path \<Rightarrow> nat) \<Rightarrow> path list \<Rightarrow> error + command list" where
  "process_layer_commands getsize layer =
     (let paths = layer;
          sizes = map getsize paths;
          num_procs = min 16 (length paths)
      in partition_commands num_procs paths sizes)"

definition process_layer ::
  "(path \<Rightarrow> nat) \<Rightarrow> (string list \<Rightarrow> 'r) \<Rightarrow> path list \<Rightarrow> error + 'r list" where
  "process_layer getsize execute_command layer =
     (case process_layer_commands getsize layer of
        Inl e \<Rightarrow> Inl e
      | Inr commands \<Rightarrow> execute_commands execute_command (submit_commands commands))"

text \<open>The commands built by the main block of mypy-pre.py (\<open>num_procs = 8\<close>).\<close>

definition pre_main_commands :: "(path \<Rightarrow> nat) \<Rightarrow> path list \<Rightarrow> error + command list" where
  "pre_main_commands getsize res =
     (let sizes = map getsize res;
          num_procs = 8
      in partition_commands num_procs res sizes)"

definition pre_main ::
  "(path \<Rightarrow> nat) \<Rightarrow> (string list \<Rightarrow> 'r) \<Rightarrow> path list \<Rightarrow> error + 'r list" where
  "pre_main getsize execute_command res =
     (case pre_main_commands getsize res of
        Inl e \<Rightarrow> Inl e
      | Inr commands \<Rightarrow> execute_commands execute_command (submit_commands commands))"

section \<open>Dependency-agnostic chunking (z.py)\<close>

text \<open>The slice \<^verbatim>\<open>b[lo:hi]\<close> for indices that are not negative: Python clips it to the list.\<close>

definition slice :: "'a list \<Rightarrow> nat \<Rightarrow> nat \<Rightarrow> 'a list" where
  "slice b lo hi = take (hi - lo) (drop lo b)"

text \<open>
  \<^verbatim>\<open>
    def chunk_array(array, n):
        b = array.copy()
        random.shuffle(b)
        k, m = divmod(len(b), n)
        return [b[i * k + min(i, m):(i + 1) * k + min(i + 1, m)] for i in range(n)]
  \<close>
  The outcome of \<^verbatim>\<open>random.shuffle\<close> is the parameter \<open>shuffle\<close>: the function from the copy
  to its shuffled state. \<^verbatim>\<open>divmod\<close> raises \<^verbatim>\<open>ZeroDivisionError\<close> for \<open>n = 0\<close>. The only
  caller, \<^verbatim>\<open>main\<close>, builds a thread pool of \<open>n\<close> workers first, which refuses \<open>n \<le> 0\<close>,
  so \<open>n\<close> is a natural number here.
\<close>

definition chunk_array :: "('a list \<Rightarrow> 'a list) \<Rightarrow> 'a list \<Rightarrow> nat \<Rightarrow> error + 'a list list" where
  "chunk_array shuffle array n =
     (let b = shuffle array in
      if n = 0 then Inl ZeroDivisionError
      else
        let k = length b div n; m = length b mod n
        in Inr (map (\<lambda>i. slice b (i * k + min i m) ((i + 1) * k + min (i + 1) m)) [0..<n]))"

text \<open>
  \<^verbatim>\<open>main(paths, num_threads)\<close>: a pool of \<open>num_threads\<close> threads, which raises \<^verbatim>\<open>ValueError\<close>
  for a size of zero, runs \<^verbatim>\<open>run_mypy\<close> (a parameter) on every chunk.
\<close>

definition z_main ::
  "('a list \<Rightarrow> 'a list) \<Rightarrow> ('a list \<Rightarrow> 'r) \<Rightarrow> 'a list \<Rightarrow> nat \<Rightarrow> error + 'r list" where
  "z_main shuffle run_mypy paths num_threads =
     (if num_threads = 0 then Inl ValueError
      else
        case chunk_array shuffle paths num_threads of
          Inl e \<Rightarrow> Inl e
        | Inr chunks \<Rightarrow> Inr (map run_mypy chunks))"

section \<open>Metadata stores (mypy/metastore.py)\<close>

text \<open>
  Timestamps are Python floats, taken as the rational numbers they stand for. Names and
  data are Python strings, taken as lists of characters.
\<close>

subsection \<open>Paths and the file tree\<close>

definition startswith :: "string \<Rightarrow> string \<Rightarrow> bool" where
  "startswith s p = (take (length p) s = p)"

text \<open>\<^verbatim>\<open>os.path.join(a, b)\<close> of \<^verbatim>\<open>posixpath\<close>, for two components.\<close>

definition path_join :: "string \<Rightarrow> string \<Rightarrow> string" where
  "path_join a b =
     (if startswith b ''/'' then b
      else if a = [] then b
      else if last a = CHR ''/'' then a @ b
      else a @ ''/'' @ b)"

text \<open>
  \<^verbatim>\<open>os.path.dirname(p)\<close> of \<^verbatim>\<open>posixpath\<close>: the part of \<open>p\<close> up to its last slash, without
  the slashes at its end unless it consists of slashes only.
\<close>

definition dirname :: "string \<Rightarrow> string" where
  "dirname p =
     (let head = rev (dropWhile (\<lambda>c. c \<noteq> CHR ''/'') (rev p))
      in if head \<noteq> [] \<and> filter (\<lambda>c. c \<noteq> CHR ''/'') head \<noteq> []
         then rev (dropWhile (\<lambda>c. c = CHR ''/'') (rev head))
         else head)"

text \<open>
  The test of \<^verbatim>\<open>assert os.path.normpath(name) != os.path.abspath(name)\<close>.
  \<^verbatim>\<open>abspath(name)\<close> is \<^verbatim>\<open>normpath(join(getcwd(), name))\<close>: for a name that starts with
  a slash the join is the name itself and the two sides are equal; for any other name
  \<^verbatim>\<open>normpath(name)\<close> is relative and \<^verbatim>\<open>abspath(name)\<close> is not. So the assertion fails
  exactly for the names that start with a slash.
\<close>

definition is_absolute :: "string \<Rightarrow> bool" where
  "is_absolute name = startswith name ''/''"

text \<open>A string with a NUL character: no system call and no SQL statement takes it.\<close>

definition has_nul :: "string \<Rightarrow> bool" where
  "has_nul s = (CHR 0x00 \<in> set s)"

text \<open>
  The file tree maps a location to what is there: a regular file with its content and
  modification time, or a directory with its modification time. A location is the list
  of names that leads to it: from the working directory \<open>[]\<close> for a relative path, from
  the root \<open>[[]]\<close> (one empty name) for an absolute one. A tree that stands for a state
  of the machine holds a directory at \<open>[]\<close> and at \<open>[[]]\<close>. Links and permissions are
  outside the model, and so is the place of the working directory below the root: a
  relative and an absolute path never meet. The times of a directory are whatever the
  tree holds for it; the model does not advance them when an entry is added or removed.
\<close>

datatype node = File string rat | Dir rat

type_synonym filesystem = "string list \<rightharpoonup> node"

fun node_mtime :: "node \<Rightarrow> rat" where
  "node_mtime (File content t) = t"
| "node_mtime (Dir t) = t"

text \<open>\<^verbatim>\<open>path.split('/')\<close>: the names between the slashes, empty ones included.\<close>

fun split_slash :: "string \<Rightarrow> string list" where
  "split_slash [] = [[]]"
| "split_slash (c # cs) =
     (if c = CHR ''/'' then [] # split_slash cs
      else case split_slash cs of
             [] \<Rightarrow> [[c]]
           | w # ws \<Rightarrow> (c # w) # ws)"

text \<open>
  The directory above a location: the root is its own parent; above the working
  directory lie \<open>[..]\<close>, \<open>[.., ..]\<close> and so on.
\<close>

definition parent_dir :: "string list \<Rightarrow> string list" where
  "parent_dir here =
     (if here = [[]] then [[]]
      else if here = [] \<or> last here = ''..'' then here @ [''..'']
      else butlast here)"

text \<open>
  Path resolution as the kernel does it, name by name from the directory \<open>here\<close>. Empty
  names and \<^verbatim>\<open>.\<close> stay, \<^verbatim>\<open>..\<close> goes up; any other name must be a directory when more
  names follow it (\<^verbatim>\<open>ENOENT\<close> when it is missing, \<^verbatim>\<open>ENOTDIR\<close> when it is a regular file).
  The result is the location the path names, which need not exist when the last name is
  the missing one.
\<close>

fun walk :: "filesystem \<Rightarrow> string list \<Rightarrow> string list \<Rightarrow> error + string list" where
  "walk fs here [] = Inr here"
| "walk fs here (c # cs) =
     (if c = [] \<or> c = ''.'' then walk fs here cs
      else if c = ''..'' then walk fs (parent_dir here) cs
      else
        case fs (here @ [c]) of
          None \<Rightarrow> if cs = [] then Inr (here @ [c]) else Inl FileNotFoundError
        | Some (Dir t) \<Rightarrow> walk fs (here @ [c]) cs
        | Some (File content t) \<Rightarrow> if cs = [] then Inr (here @ [c]) else Inl NotADirectoryError)"

text \<open>
  What every call of the \<^verbatim>\<open>os\<close> module does with a path argument: \<^verbatim>\<open>ValueError\<close>
  (embedded null byte) before any system call, \<^verbatim>\<open>ENOENT\<close> for the empty path.
\<close>

definition resolve :: "filesystem \<Rightarrow> string \<Rightarrow> error + string list" where
  "resolve fs path =
     (if has_nul path then Inl ValueError
      else if path = [] then Inl FileNotFoundError
      else walk fs (if is_absolute path then [[]] else []) (split_slash path))"

text \<open>
  The exceptions of the model that are subclasses of \<^verbatim>\<open>OSError\<close>. \<open>OSError\<close> itself stands
  for the failures that come from outside the tree (permissions, a full disk, an I/O
  error).
\<close>

definition is_OSError :: "error \<Rightarrow> bool" where
  "is_OSError e =
     (e = OSError \<or> e = FileNotFoundError \<or> e = FileExistsError
      \<or> e = IsADirectoryError \<or> e = NotADirectoryError)"

text \<open>\<^verbatim>\<open>os.stat(path)\<close>, as far as \<^verbatim>\<open>os.path.getmtime\<close> needs it.\<close>

definition os_stat :: "filesystem \<Rightarrow> string \<Rightarrow> error + node" where
  "os_stat fs path =
     (case resolve fs path of
        Inl e \<Rightarrow> Inl e
      | Inr loc \<Rightarrow>
          (case fs loc of
             None \<Rightarrow> Inl FileNotFoundError
           | Some n \<Rightarrow> Inr n))"

text \<open>
  \<^verbatim>\<open>open(path)\<close> followed by \<^verbatim>\<open>f.read()\<close>. The file is opened in text mode with
  \<^verbatim>\<open>newline=None\<close>: universal newlines are on, and the text read has every \<^verbatim>\<open>\r\n\<close> and
  every other \<^verbatim>\<open>\r\<close> turned into \<^verbatim>\<open>\n\<close>. (On writing, POSIX leaves the text as it is.)
\<close>

fun universal_newlines :: "string \<Rightarrow> string" where
  "universal_newlines [] = []"
| "universal_newlines [c] = [if c = CHR 0x0D then CHR 0x0A else c]"
| "universal_newlines (c # d # cs) =
     (if c = CHR 0x0D \<and> d = CHR 0x0A then CHR 0x0A # universal_newlines cs
      else if c = CHR 0x0D then CHR 0x0A # universal_newlines (d # cs)
      else c # universal_newlines (d # cs))"

definition open_read :: "filesystem \<Rightarrow> string \<Rightarrow> error + string" where
  "open_read fs path =
     (case resolve fs path of
        Inl e \<Rightarrow> Inl e
      | Inr loc \<Rightarrow>
          (case fs loc of
             None \<Rightarrow> Inl FileNotFoundError
           | Some (Dir t) \<Rightarrow> Inl IsADirectoryError
           | Some (File content t) \<Rightarrow> Inr (universal_newlines content)))"

text \<open>\<^verbatim>\<open>os.remove(path)\<close>: unlinks a regular file; a directory is refused.\<close>

definition os_remove :: "filesystem \<Rightarrow> string \<Rightarrow> error + filesystem" where
  "os_remove fs path =
     (case resolve fs path of
        Inl e \<Rightarrow> Inl e
      | Inr loc \<Rightarrow>
          (case fs loc of
             None \<Rightarrow> Inl FileNotFoundError
           | Some (Dir t) \<Rightarrow> Inl IsADirectoryError
           | Some (File content t) \<Rightarrow> Inr (fs(loc := None))))"

text \<open>
  \<^verbatim>\<open>os.makedirs(name, exist_ok=True)\<close>: every directory on the way is created when it is
  missing, stamped with the time \<open>now\<close>, and left alone when it is there; a regular file
  on the way stops the call with an \<^verbatim>\<open>OSError\<close>. The directories created before that
  stay: the result is the exception, if any, and the tree.
\<close>

fun mkdirs ::
  "rat \<Rightarrow> filesystem \<Rightarrow> string list \<Rightarrow> string list \<Rightarrow> error option \<times> filesystem" where
  "mkdirs now fs here [] = (None, fs)"
| "mkdirs now fs here (c # cs) =
     (if c = [] \<or> c = ''.'' then mkdirs now fs here cs
      else if c = ''..'' then mkdirs now fs (parent_dir here) cs
      else
        case fs (here @ [c]) of
          None \<Rightarrow> mkdirs now (fs(here @ [c] \<mapsto> Dir now)) (here @ [c]) cs
        | Some (Dir t) \<Rightarrow> mkdirs now fs (here @ [c]) cs
        | Some (File content t) \<Rightarrow>
            (Some (if cs = [] then FileExistsError else NotADirectoryError), fs))"

definition os_makedirs :: "rat \<Rightarrow> filesystem \<Rightarrow> string \<Rightarrow> error option \<times> filesystem" where
  "os_makedirs now fs name =
     (if has_nul name then (Some ValueError, fs)
      else if name = [] then (Some FileNotFoundError, fs)
      else mkdirs now fs (if is_absolute name then [[]] else []) (split_slash name))"

text \<open>
  \<^verbatim>\<open>with open(path, "w") as f: f.write(data)\<close>: the file is created or truncated and
  holds \<open>data\<close>, stamped with the time \<open>now\<close>.
\<close>

definition open_write :: "rat \<Rightarrow> filesystem \<Rightarrow> string \<Rightarrow> string \<Rightarrow> error + filesystem" where
  "open_write now fs path data =
     (case resolve fs path of
        Inl e \<Rightarrow> Inl e
      | Inr loc \<Rightarrow>
          (case fs loc of
             Some (Dir t) \<Rightarrow> Inl IsADirectoryError
           | _ \<Rightarrow> Inr (fs(loc \<mapsto> File data now))))"

text \<open>
  \<^verbatim>\<open>os.replace(src, dst)\<close> for a source that is a regular file, as the temporary file of
  \<^verbatim>\<open>write\<close> is: the file takes the place of \<open>dst\<close>, which may be missing or a regular
  file; a directory there is refused. The renaming of a directory is outside the model
  and comes out as \<open>OSError\<close>.
\<close>

definition os_replace :: "filesystem \<Rightarrow> string \<Rightarrow> string \<Rightarrow> error + filesystem" where
  "os_replace fs src dst =
     (case resolve fs src of
        Inl e \<Rightarrow> Inl e
      | Inr loc1 \<Rightarrow>
          (case fs loc1 of
             None \<Rightarrow> Inl FileNotFoundError
           | Some (Dir t) \<Rightarrow> Inl OSError
           | Some (File content t) \<Rightarrow>
               (case resolve fs dst of
                  Inl e \<Rightarrow> Inl e
                | Inr loc2 \<Rightarrow>
                    (case fs loc2 of
                       Some (Dir t') \<Rightarrow> Inl IsADirectoryError
                     | _ \<Rightarrow> Inr ((fs(loc1 := None))(loc2 \<mapsto> File content t))))))"

text \<open>
  \<^verbatim>\<open>os.utime(path, times=(t, t))\<close>. The float is turned into seconds and nanoseconds,
  rounding down; \<^verbatim>\<open>OverflowError\<close> (timestamp out of range for platform time_t) when the
  seconds do not fit 64 bits.
\<close>

definition utime_in_range :: "rat \<Rightarrow> bool" where
  "utime_in_range t = (- (2 ^ 63) \<le> \<lfloor>t\<rfloor> \<and> \<lfloor>t\<rfloor> < 2 ^ 63)"

definition floor_ns :: "rat \<Rightarrow> rat" where
  "floor_ns t = of_int \<lfloor>t * 1000000000\<rfloor> / 1000000000"

definition os_utime :: "filesystem \<Rightarrow> string \<Rightarrow> rat \<Rightarrow> error + filesystem" where
  "os_utime fs path t =
     (if has_nul path then Inl ValueError
      else if utime_in_range t then
        (case resolve fs path of
           Inl e \<Rightarrow> Inl e
         | Inr loc \<Rightarrow>
             (case fs loc of
                None \<Rightarrow> Inl FileNotFoundError
              | Some (Dir t') \<Rightarrow> Inr (fs(loc \<mapsto> Dir (floor_ns t)))
              | Some (File content t') \<Rightarrow> Inr (fs(loc \<mapsto> File content (floor_ns t)))))
      else Inl OverflowError)"

text \<open>\<^verbatim>\<open>int(x)\<close> of a float: truncation towards zero.\<close>

definition py_int :: "rat \<Rightarrow> int" where
  "py_int x = (if 0 \<le> x then \<lfloor>x\<rfloor> else \<lceil>x\<rceil>)"

text \<open>
  What a \<^verbatim>\<open>write\<close> meets outside the program: the clock (\<^verbatim>\<open>time.time()\<close>, and the time
  the file system stamps on what it creates, as \<^verbatim>\<open>os.stat\<close> reports it), the outcome of
  \<^verbatim>\<open>random_string()\<close>, which of the calls in the \<^verbatim>\<open>try\<close> block of the filesystem store
  fails for a reason outside the tree, if any, whether the database raises
  \<^verbatim>\<open>psycopg2.Error\<close> on the statement, and the value that a \<^verbatim>\<open>SELECT\<close> gives back for a
  float stored in the \<^verbatim>\<open>REAL\<close> column (a single-precision column: the float goes to the
  server as a decimal literal, is rounded there to single precision, and comes back as
  the float nearest to the decimal text of that).
\<close>

datatype os_fault = NoFault | MakedirsFault | OpenFault | ReplaceFault | UtimeFault

record write_env =
  clock :: rat
  random_string :: string
  os_fault :: os_fault
  db_error :: bool
  real_column :: "rat \<Rightarrow> rat"

subsection \<open>FilesystemMetadataStore\<close>

text \<open>\<^verbatim>\<open>__init__\<close>: the value of \<^verbatim>\<open>self.cache_dir_prefix\<close>; \<^verbatim>\<open>os.devnull\<close> is \<^verbatim>\<open>/dev/null\<close>.\<close>

definition FilesystemMetadataStore :: "string \<Rightarrow> string option" where
  "FilesystemMetadataStore cache_dir_prefix =
     (if startswith cache_dir_prefix ''/dev/null'' then None else Some cache_dir_prefix)"

text \<open>
  \<^verbatim>\<open>if not self.cache_dir_prefix\<close> holds for \<^verbatim>\<open>None\<close> and for the empty string:
  \<open>root_dir\<close> is the prefix when that test fails.
\<close>

definition root_dir :: "string option \<Rightarrow> string option" where
  "root_dir cache_dir_prefix =
     (case cache_dir_prefix of
        None \<Rightarrow> None
      | Some d \<Rightarrow> if d = [] then None else Some d)"

definition fs_getmtime :: "string option \<Rightarrow> filesystem \<Rightarrow> string \<Rightarrow> error + rat" where
  "fs_getmtime cache_dir_prefix fs name =
     (case root_dir cache_dir_prefix of
        None \<Rightarrow> Inl FileNotFoundError
      | Some d \<Rightarrow>
          (case os_stat fs (path_join d name) of
             Inl e \<Rightarrow> Inl e
           | Inr n \<Rightarrow> Inr (of_int (py_int (node_mtime n)))))"

definition fs_read :: "string option \<Rightarrow> filesystem \<Rightarrow> string \<Rightarrow> error + string" where
  "fs_read cache_dir_prefix fs name =
     (if is_absolute name then Inl AssertionError
      else
        case root_dir cache_dir_prefix of
          None \<Rightarrow> Inl FileNotFoundError
        | Some d \<Rightarrow> open_read fs (path_join d name))"

text \<open>
  The \<^verbatim>\<open>try\<close> block of \<^verbatim>\<open>write\<close>: the directories are made, the temporary file is written,
  renamed over the destination and, when an mtime is given, stamped with it. The result
  is the exception that ends the block, if any, and the tree as the calls before it
  left it.
\<close>

definition write_block ::
  "write_env \<Rightarrow> filesystem \<Rightarrow> string \<Rightarrow> string \<Rightarrow> string \<Rightarrow> rat option
     \<Rightarrow> error option \<times> filesystem" where
  "write_block env fs path tmp_filename data mtime =
     (if os_fault env = MakedirsFault then (Some OSError, fs)
      else
        case os_makedirs (clock env) fs (dirname path) of
          (Some e, fs0) \<Rightarrow> (Some e, fs0)
        | (None, fs0) \<Rightarrow>
            (if os_fault env = OpenFault then (Some OSError, fs0)
             else
               case open_write (clock env) fs0 tmp_filename data of
                 Inl e \<Rightarrow> (Some e, fs0)
               | Inr fs1 \<Rightarrow>
                   (if os_fault env = ReplaceFault then (Some OSError, fs1)
                    else
                      case os_replace fs1 tmp_filename path of
                        Inl e \<Rightarrow> (Some e, fs1)
                      | Inr fs2 \<Rightarrow>
                          (case mtime of
                             None \<Rightarrow> (None, fs2)
                           | Some t \<Rightarrow>
                               (if os_fault env = UtimeFault then (Some OSError, fs2)
                                else
                                  case os_utime fs2 path t of
                                    Inl e \<Rightarrow> (Some e, fs2)
                                  | Inr fs3 \<Rightarrow> (None, fs3))))))"

text \<open>
  \<^verbatim>\<open>write\<close>: an \<^verbatim>\<open>OSError\<close> in the block makes the result \<^verbatim>\<open>False\<close>; any other exception
  (\<^verbatim>\<open>ValueError\<close> for a NUL in the name, \<^verbatim>\<open>OverflowError\<close> for an mtime out of range)
  leaves the method.
\<close>

definition fs_write ::
  "write_env \<Rightarrow> string option \<Rightarrow> filesystem \<Rightarrow> string \<Rightarrow> string \<Rightarrow> rat option
     \<Rightarrow> error + bool \<times> filesystem" where
  "fs_write env cache_dir_prefix fs name data mtime =
     (if is_absolute name then Inl AssertionError
      else
        case root_dir cache_dir_prefix of
          None \<Rightarrow> Inr (False, fs)
        | Some d \<Rightarrow>
            let path = path_join d name;
                tmp_filename = path @ ''.'' @ random_string env
            in case write_block env fs path tmp_filename data mtime of
                 (None, fs') \<Rightarrow> Inr (True, fs')
               | (Some e, fs') \<Rightarrow> if is_OSError e then Inr (False, fs') else Inl e)"

definition fs_remove :: "string option \<Rightarrow> filesystem \<Rightarrow> string \<Rightarrow> error + filesystem" where
  "fs_remove cache_dir_prefix fs name =
     (case root_dir cache_dir_prefix of
        None \<Rightarrow> Inl FileNotFoundError
      | Some d \<Rightarrow> os_remove fs (path_join d name))"

subsection \<open>SqliteMetadataStore (PostgreSQL)\<close>

text \<open>
  The table \<^verbatim>\<open>files (path TEXT PRIMARY KEY, mtime REAL, data TEXT)\<close> is a list of rows;
  the \<open>mtime_col\<close> of a row is the float that a \<^verbatim>\<open>SELECT\<close> returns for it. The connection
  commits every statement. psycopg2 raises \<^verbatim>\<open>ValueError\<close> on a string parameter with a
  NUL character, before the statement is sent.
\<close>

record files_row =
  path_col :: string
  mtime_col :: rat
  data_col :: string

type_synonym files_table = "files_row list"

text \<open>\<^verbatim>\<open>SELECT ... FROM files WHERE path = %s\<close> followed by \<^verbatim>\<open>fetchone()\<close>.\<close>

definition fetchone :: "files_table \<Rightarrow> string \<Rightarrow> files_row option" where
  "fetchone files name = find (\<lambda>r. path_col r = name) files"

definition sqlite_getmtime :: "files_table \<Rightarrow> string \<Rightarrow> error + rat" where
  "sqlite_getmtime files name =
     (if has_nul name then Inl ValueError
      else
        case fetchone files name of
          None \<Rightarrow> Inl FileNotFoundError
        | Some result \<Rightarrow> Inr (mtime_col result))"

definition sqlite_read :: "files_table \<Rightarrow> string \<Rightarrow> error + string" where
  "sqlite_read files name =
     (if has_nul name then Inl ValueError
      else
        case fetchone files name of
          None \<Rightarrow> Inl FileNotFoundError
        | Some result \<Rightarrow> Inr (data_col result))"

text \<open>
  \<^verbatim>\<open>INSERT INTO files (path, mtime, data) VALUES (%s, %s, %s)
  ON CONFLICT (path) DO UPDATE SET mtime = EXCLUDED.mtime, data = EXCLUDED.data\<close>
\<close>

definition upsert :: "files_table \<Rightarrow> string \<Rightarrow> rat \<Rightarrow> string \<Rightarrow> files_table" where
  "upsert files name mtime data =
     (if name \<in> set (map path_col files)
      then map (\<lambda>r. if path_col r = name then r\<lparr>mtime_col := mtime, data_col := data\<rparr> else r) files
      else files @ [\<lparr>path_col = name, mtime_col = mtime, data_col = data\<rparr>])"

text \<open>
  \<^verbatim>\<open>write\<close>: the mtime defaults to the clock; the row holds what the \<^verbatim>\<open>REAL\<close> column
  makes of it. A \<^verbatim>\<open>psycopg2.Error\<close> makes the result \<^verbatim>\<open>False\<close>; the \<^verbatim>\<open>ValueError\<close> for a
  NUL in the name or the data is not one and leaves the method.
\<close>

definition sqlite_write ::
  "write_env \<Rightarrow> files_table \<Rightarrow> string \<Rightarrow> string \<Rightarrow> rat option
     \<Rightarrow> error + bool \<times> files_table" where
  "sqlite_write env files name data mtime =
     (let mtime = (case mtime of None \<Rightarrow> clock env | Some t \<Rightarrow> t)
      in if has_nul name \<or> has_nul data then Inl ValueError
         else if db_error env then Inr (False, files)
         else Inr (True, upsert files name (real_column env mtime) data))"

text \<open>
  \<^verbatim>\<open>DELETE FROM files WHERE path = %s\<close>: the statement deletes the rows that match,
  none when there is none, and the method returns.
\<close>

definition sqlite_remove :: "files_table \<Rightarrow> string \<Rightarrow> error + files_table" where
  "sqlite_remove files name =
     (if has_nul name then Inl ValueError
      else Inr (filter (\<lambda>r. path_col r \<noteq> name) files))"

section \<open>Accumulating scheduler (main block of mypy_pre2.py)\<close>

text \<open>
  What the loop reads and never changes: the modules of the sources, the members of each
  graph node (\<^verbatim>\<open>node_sccs\<close>), the path of each module (\<^verbatim>\<open>graph[node].path\<close>), and the
  two things outside the program, the size of a file and the worker command.
\<close>

record ('n, 'm, 'r) scheduler_input =
  cfg_modules :: "'m list"
  cfg_node_sccs :: "'n \<rightharpoonup> 'm list"
  cfg_graph :: "'m \<rightharpoonup> path"
  cfg_getsize :: "path \<Rightarrow> nat"
  cfg_execute_command :: "string list \<Rightarrow> 'r"

text \<open>
  The variables the loop updates. \<^verbatim>\<open>curr_inters\<close> is a Python set: it is kept as a list
  without repetitions, in one of the orders the set may be iterated in. \<open>printed\<close> is what
  \<^verbatim>\<open>print(curr_inters)\<close> has written: the pending set at each flush.
\<close>

record ('m, 'r) scheduler_state =
  curr_inters :: "'m list"
  proc_sets :: "path list list"
  result_list :: "'r list list"
  printed :: "'m list list"

definition initial_state :: "('m, 'r) scheduler_state" where
  "initial_state = \<lparr>curr_inters = [], proc_sets = [], result_list = [], printed = []\<rparr>"

text \<open>
  \<^verbatim>\<open>
    curr_layer = set(layers[i])
    curr_layer_set = set()
    for node in curr_layer:
        if node in node_sccs:
            for mod in node_sccs[node]:
                curr_layer_set.add(mod)
    inters = curr_layer_set.intersection(modules)
  \<close>
\<close>

definition layer_inters :: "('n, 'm, 'r) scheduler_input \<Rightarrow> 'n list \<Rightarrow> 'm list" where
  "layer_inters cfg layer =
     (let curr_layer = remdups layer;
          curr_layer_set =
            remdups (concat (map (\<lambda>node. case cfg_node_sccs cfg node of
                                           None \<Rightarrow> []
                                         | Some mods \<Rightarrow> mods) curr_layer))
      in filter (\<lambda>m. m \<in> set (cfg_modules cfg)) curr_layer_set)"

text \<open>
  One flush, the block the source has twice:
  \<^verbatim>\<open>
    print(curr_inters)
    curr_nodes_to_process = [graph[node].path for node in curr_inters]
    proc_sets.append(curr_nodes_to_process)
    result_list.append(process_layer(curr_nodes_to_process, node_sccs, graph))
    curr_inters.clear()
  \<close>
  \<^verbatim>\<open>graph[node]\<close> raises \<^verbatim>\<open>KeyError\<close> for a module the graph does not have, and an
  exception of \<^verbatim>\<open>process_layer\<close> ends the run. \<^verbatim>\<open>process_layer\<close> returns when the pool
  has run every command.
\<close>

definition flush ::
  "('n, 'm, 'r) scheduler_input \<Rightarrow> ('m, 'r) scheduler_state \<Rightarrow> error + ('m, 'r) scheduler_state" where
  "flush cfg st =
     (case those (map (cfg_graph cfg) (curr_inters st)) of
        None \<Rightarrow> Inl KeyError
      | Some curr_nodes_to_process \<Rightarrow>
          (case process_layer (cfg_getsize cfg) (cfg_execute_command cfg) curr_nodes_to_process of
             Inl e \<Rightarrow> Inl e
           | Inr results \<Rightarrow>
               Inr (st\<lparr>printed := printed st @ [curr_inters st],
                       proc_sets := proc_sets st @ [curr_nodes_to_process],
                       result_list := result_list st @ [results],
                       curr_inters := []\<rparr>)))"

text \<open>
  The body of \<^verbatim>\<open>for i in range(len(layers))\<close>: the layer's modules are added to
  \<^verbatim>\<open>curr_inters\<close>, and \<^verbatim>\<open>if len(curr_inters) >= 16\<close> the pending set is flushed.
\<close>

definition scheduler_step ::
  "('n, 'm, 'r) scheduler_input \<Rightarrow> ('m, 'r) scheduler_state \<Rightarrow> 'n list
     \<Rightarrow> error + ('m, 'r) scheduler_state" where
  "scheduler_step cfg st layer =
     (let st1 = st\<lparr>curr_inters := List.union (layer_inters cfg layer) (curr_inters st)\<rparr>
      in if 16 \<le> length (curr_inters st1) then flush cfg st1 else Inr st1)"

fun accumulate ::
  "('n, 'm, 'r) scheduler_input \<Rightarrow> ('m, 'r) scheduler_state \<Rightarrow> 'n list list
     \<Rightarrow> error + ('m, 'r) scheduler_state" where
  "accumulate cfg st [] = Inr st"
| "accumulate cfg st (layer # layers) =
     (case scheduler_step cfg st layer of
        Inl e \<Rightarrow> Inl e
      | Inr st' \<Rightarrow> accumulate cfg st' layers)"

text \<open>The loop, then \<^verbatim>\<open>if len(curr_inters) > 0\<close> the last flush.\<close>

definition scheduler ::
  "('n, 'm, 'r) scheduler_input \<Rightarrow> 'n list list \<Rightarrow> error + ('m, 'r) scheduler_state" where
  "scheduler cfg layers =
     (case accumulate cfg initial_state layers of
        Inl e \<Rightarrow> Inl e
      | Inr st \<Rightarrow> if 0 < length (curr_inters st) then flush cfg st else Inr st)"

text \<open>
  The invariant of the loop, between two layers: the pending set is a set of source
  modules with fewer than 16 members, every flush so far held at least 16, the paths
  handed to \<^verbatim>\<open>process_layer\<close> are those of the modules printed, and the results of
  every flush are what \<^verbatim>\<open>process_layer\<close> returned for its paths.
\<close>

definition loop_invariant ::
  "('n, 'm, 'r) scheduler_input \<Rightarrow> ('m, 'r) scheduler_state \<Rightarrow> bool" where
  "loop_invariant cfg st =
     (distinct (curr_inters st)
      \<and> set (curr_inters st) \<subseteq> set (cfg_modules cfg)
      \<and> length (curr_inters st) < 16
      \<and> list_all (\<lambda>f. 16 \<le> length f \<and> distinct f) (printed st)
      \<and> map (map (cfg_graph cfg)) (printed st) = map (map Some) (proc_sets st)
      \<and> list_all2 (\<lambda>paths results.
           process_layer (cfg_getsize cfg) (cfg_execute_command cfg) paths = Inr results)
           (proc_sets st) (result_list st))"

section \<open>Concrete inputs\<close>

text \<open>The spec's scenario 2: five units with costs 50, 10, 10, 10, 20.\<close>

definition scenario2_units :: "(path \<times> nat) list" where
  "scenario2_units = [(''u1'', 50), (''u2'', 10), (''u3'', 10), (''u4'', 10), (''u5'', 20)]"

text \<open>Eight files of \<open>2^53\<close> bytes each and one of one byte.\<close>

definition huge_units :: "(path \<times> nat) list" where
  "huge_units =
     [(''f1'', 9007199254740992), (''f2'', 9007199254740992), (''f3'', 9007199254740992),
      (''f4'', 9007199254740992), (''f5'', 9007199254740992), (''f6'', 9007199254740992),
      (''f7'', 9007199254740992), (''f8'', 9007199254740992), (''f9'', 1)]"

text \<open>
  A write that meets no fault, at clock reading 1000, with a \<^verbatim>\<open>REAL\<close> column that gives
  back the nearest single-precision number.
\<close>

definition quiet_env :: write_env where
  "quiet_env =
     \<lparr>clock = 1000, random_string = ''0123456789abcdef'', os_fault = NoFault,
      db_error = False, real_column = float32\<rparr>"

text \<open>The root of a filesystem store created on \<^verbatim>\<open>cache\<close>, and of one created on the null device.\<close>

definition cache_root :: "string option" where
  "cache_root = FilesystemMetadataStore ''cache''"

definition null_root :: "string option" where
  "null_root = FilesystemMetadataStore ''/dev/null/3.11''"

text \<open>A tree that holds the working directory and nothing in it.\<close>

definition home_tree :: filesystem where
  "home_tree = [[] \<mapsto> Dir 900]"

text \<open>Data with a carriage return, \<^verbatim>\<open>"a\rb"\<close>, and what universal newlines make of it.\<close>

definition cr_data :: string where
  "cr_data = [CHR ''a'', CHR 0x0D, CHR ''b'']"

definition lf_data :: string where
  "lf_data = [CHR ''a'', CHR 0x0A, CHR ''b'']"

text \<open>
  A project of one module whose file is empty, as a lone \<^verbatim>\<open>__init__.py\<close> often is: one
  layer with the module's node; the worker reports the number of its arguments.
\<close>

definition empty_file_input :: "(string, string, nat) scheduler_input" where
  "empty_file_input =
     \<lparr>cfg_modules = [''pkg''],
      cfg_node_sccs = (\<lambda>node. Some [node]),
      cfg_graph = (\<lambda>m. Some (m @ ''/__init__.py'')),
      cfg_getsize = (\<lambda>p. 0),
      cfg_execute_command = length\<rparr>"

definition empty_file_layers :: "string list list" where
  "empty_file_layers = [[''pkg'']]"

section \<open>Properties of the partitioner\<close>

subsection \<open>The float quotient and its ceiling\<close>

lemma log2_floor_bounds:
  "0 < n \<Longrightarrow> 2 ^ log2_floor n \<le> n \<and> n < 2 ^ Suc (log2_floor n)"
proof (induction n rule: log2_floor.induct)
  case (1 n)
  show ?case
  proof (cases "n < 2")
    case True
    with 1(2) have "n = 1" by simp
    then show ?thesis by (simp add: log2_floor.simps)
  next
    case False
    then have pos: "0 < n div 2" by simp
    from 1(1)[OF False pos]
    have ih: "2 ^ log2_floor (n div 2) \<le> n div 2" "n div 2 < 2 ^ Suc (log2_floor (n div 2))"
      by simp_all
    have eq: "log2_floor n = Suc (log2_floor (n div 2))"
      using False by (subst log2_floor.simps) simp
    from ih(1) have "2 * 2 ^ log2_floor (n div 2) \<le> n" by linarith
    moreover from ih(2) have "n < 2 * 2 ^ Suc (log2_floor (n div 2))" by linarith
    ultimately show ?thesis by (simp add: eq)
  qed
qed

lemma round_half_even_near: "\<bar>of_int (round_half_even y) - y\<bar> \<le> 1 / 2"
proof -
  have "of_int \<lfloor>y\<rfloor> \<le> y" "y < of_int \<lfloor>y\<rfloor> + 1" by linarith+
  then show ?thesis
    by (auto simp add: round_half_even_def Let_def)
qed

lemma pow2_nonpos: "k \<le> 0 \<Longrightarrow> pow2 k = 1 / 2 ^ nat (- k)"
  by (cases "k = 0") (simp_all add: pow2_def)

text \<open>
  The float quotient of a total below \<open>2^53\<close> by a count that does not exceed it lies
  less than \<open>1/n\<close> below the exact quotient, and at most one half above it.
\<close>

lemma float64_quotient:
  fixes S n :: nat
  assumes n: "0 < n" and le: "n \<le> S" and S: "S < 2 ^ 53"
  defines "x \<equiv> (of_nat S :: rat) / of_nat n"
  shows "x - 1 / of_nat n < float64 x" and "float64 x \<le> x + 1 / 2"
proof -
  have x1: "1 \<le> x" using n le by (simp add: x_def)
  have xS: "x \<le> of_nat S"
  proof -
    have "(of_nat S :: rat) / of_nat n \<le> of_nat S / 1"
      using n by (intro divide_left_mono) simp_all
    then show ?thesis by (simp add: x_def)
  qed
  define F where "F = \<lfloor>x\<rfloor>"
  define e where "e = log2_floor F"
  have F1: "0 < F" using x1 by (simp add: F_def)
  have Fx: "(of_int F :: rat) \<le> x" by (simp add: F_def)
  have "(of_int F :: rat) \<le> of_int (int S)" using Fx xS by simp
  then have FS: "F \<le> int S" by (simp only: of_int_le_iff)
  from log2_floor_bounds[OF F1] have lo: "2 ^ e \<le> F" by (simp add: e_def)
  have "int S < 2 ^ 53" using S by simp
  then have "(2::int) ^ e < 2 ^ 53" using lo FS by linarith
  then have "e < 53" by (rule power_less_imp_less_exp[rotated]) simp
  then have e52: "e \<le> 52" by simp
  have ex: "(2::rat) ^ e \<le> x"
  proof -
    have "(of_int (2 ^ e) :: rat) \<le> of_int F" using lo by (simp only: of_int_le_iff)
    then have "(2::rat) ^ e \<le> of_int F" by simp
    then show ?thesis using Fx by linarith
  qed
  define K :: rat where "K = 2 ^ (52 - e)"
  have K1: "1 \<le> K" by (simp add: K_def)
  have Kpos: "0 < K" by (simp add: K_def)
  have q: "pow2 (max (binary_exponent \<bar>x\<bar>) (- 1022) - int 53 + 1) = 1 / K"
  proof -
    have "binary_exponent \<bar>x\<bar> = int e"
      using x1 by (simp add: binary_exponent_def e_def F_def)
    then have "max (binary_exponent \<bar>x\<bar>) (- 1022) - int 53 + 1 = int e - 52" by simp
    moreover have "pow2 (int e - 52) = 1 / 2 ^ nat (- (int e - 52))"
      using e52 by (intro pow2_nonpos) simp
    moreover have "nat (- (int e - 52)) = 52 - e" using e52 by simp
    ultimately show ?thesis by (simp add: K_def)
  qed
  define m where "m = round_half_even (x * K)"
  have fl: "float64 x = of_int m / K"
  proof -
    have "x \<noteq> 0" "sgn x = 1" "\<bar>x\<bar> = x" using x1 by simp_all
    then show ?thesis
      unfolding float64_def binary_round_def Let_def q
      using x1 by (simp add: m_def)
  qed
  have near: "\<bar>of_int m - x * K\<bar> \<le> 1 / 2"
    unfolding m_def by (rule round_half_even_near)
  have lowK: "x * K - 1 / 2 \<le> of_int m" and upK: "of_int m \<le> x * K + 1 / 2"
    using near by linarith+
  have low: "x - 1 / (2 * K) \<le> of_int m / K"
  proof -
    have "(x * K - 1 / 2) / K \<le> of_int m / K"
      using lowK Kpos by (intro divide_right_mono) simp_all
    then show ?thesis using Kpos by (simp add: field_simps)
  qed
  have up: "of_int m / K \<le> x + 1 / (2 * K)"
  proof -
    have "of_int m / K \<le> (x * K + 1 / 2) / K"
      using upK Kpos by (intro divide_right_mono) simp_all
    then show ?thesis using Kpos by (simp add: field_simps)
  qed
  have nK: "(of_nat n :: rat) < 2 * K"
  proof -
    have "(2::rat) ^ e * of_nat n \<le> of_nat S"
    proof -
      have "(2::rat) ^ e * of_nat n \<le> x * of_nat n"
        using ex by (intro mult_right_mono) simp_all
      then show ?thesis using n by (simp add: x_def)
    qed
    also have "(of_nat S :: rat) < 2 ^ 53"
    proof -
      have "(of_nat S :: rat) < of_nat (2 ^ 53)" using S by (rule of_nat_less_iff[THEN iffD2])
      then show ?thesis by simp
    qed
    also have "(2::rat) ^ 53 = 2 ^ e * (2 * K)"
    proof -
      have "(2::rat) ^ 53 = 2 ^ (e + (1 + (52 - e)))" using e52 by simp
      also have "\<dots> = 2 ^ e * (2 * K)" by (simp only: power_add K_def power_one_right)
      finally show ?thesis .
    qed
    finally show ?thesis by simp
  qed
  have "1 / (2 * K) < 1 / of_nat n"
    using nK n by (intro divide_strict_left_mono) simp_all
  with low show "x - 1 / of_nat n < float64 x" unfolding fl by linarith
  have "1 / (2 * K) \<le> 1 / 2"
    using K1 by (simp add: field_simps)
  with up show "float64 x \<le> x + 1 / 2" unfolding fl by linarith
qed

lemma binary_exponent_bound:
  assumes "0 \<le> r" and "r < 2 ^ 54"
  shows "binary_exponent r < 54"
proof (cases "1 \<le> r")
  case False
  then show ?thesis by (simp add: binary_exponent_def)
next
  case True
  define F where "F = \<lfloor>r\<rfloor>"
  have F1: "0 < F" using True by (simp add: F_def)
  have "(of_int F :: rat) \<le> r" by (simp add: F_def)
  with assms(2) have "(of_int F :: rat) < 2 ^ 54" by linarith
  then have "(of_int F :: rat) < of_int (2 ^ 54)" by simp
  then have "F < 2 ^ 54" by (simp only: of_int_less_iff)
  moreover from log2_floor_bounds[OF F1] have "2 ^ log2_floor F \<le> F" by simp
  ultimately have "(2::int) ^ log2_floor F < 2 ^ 54" by linarith
  then have "log2_floor F < 54" by (rule power_less_imp_less_exp[rotated]) simp
  then show ?thesis using True by (simp add: binary_exponent_def F_def)
qed

lemma target_size_covers:
  assumes n: "0 < n" and le: "n \<le> sum_list sizes" and S: "sum_list sizes < 2 ^ 53"
  shows "\<exists>t. target_size sizes n = Inr t \<and> sum_list sizes \<le> n * t"
proof -
  define x where "x = (of_nat (sum_list sizes) :: rat) / of_nat n"
  define r where "r = float64 x"
  have lo: "x - 1 / of_nat n < r" and up: "r \<le> x + 1 / 2"
    unfolding r_def x_def using float64_quotient[OF n le S] by simp_all
  have x0: "0 \<le> x" by (simp add: x_def)
  have xS: "x \<le> of_nat (sum_list sizes)"
  proof -
    have "(of_nat (sum_list sizes) :: rat) / of_nat n \<le> of_nat (sum_list sizes) / 1"
      using n by (intro divide_left_mono) simp_all
    then show ?thesis by (simp add: x_def)
  qed
  have "(of_nat (sum_list sizes) :: rat) < of_nat (2 ^ 53)"
    using S by (rule of_nat_less_iff[THEN iffD2])
  then have S': "(of_nat (sum_list sizes) :: rat) < 2 ^ 53" by simp
  have rpos: "0 < r"
  proof -
    have "1 \<le> x" using n le by (simp add: x_def)
    moreover have "1 / (of_nat n :: rat) \<le> 1" using n by simp
    ultimately show ?thesis using lo by linarith
  qed
  have "r < 2 ^ 54"
  proof -
    have "r < 2 ^ 53 + 1" using up xS S' by linarith
    also have "(2::rat) ^ 53 + 1 \<le> 2 ^ 54" by simp
    finally show ?thesis .
  qed
  then have "binary_exponent r < 54" using rpos by (intro binary_exponent_bound) simp_all
  then have nov: "\<not> 1023 < binary_exponent \<bar>r\<bar>" using rpos by simp
  have ts: "target_size sizes n = Inr (nat \<lceil>r\<rceil>)"
    using n nov by (simp add: target_size_def py_truediv_def Let_def r_def x_def)
  have "of_nat (sum_list sizes) - 1 < of_nat n * r"
  proof -
    have "(x - 1 / of_nat n) * of_nat n < r * of_nat n"
      using lo n by (intro mult_strict_right_mono) simp_all
    moreover have "x * of_nat n = of_nat (sum_list sizes)" using n by (simp add: x_def)
    moreover have "1 / (of_nat n :: rat) * of_nat n = 1" using n by simp
    ultimately show ?thesis by (simp add: algebra_simps)
  qed
  also have "of_nat n * r \<le> of_nat n * of_int \<lceil>r\<rceil>"
    by (intro mult_left_mono) simp_all
  finally have "(of_nat (sum_list sizes) :: rat) - 1 < of_int (int n * \<lceil>r\<rceil>)" by simp
  then have "(of_int (int (sum_list sizes) - 1) :: rat) < of_int (int n * \<lceil>r\<rceil>)" by simp
  then have "int (sum_list sizes) - 1 < int n * \<lceil>r\<rceil>" by (simp only: of_int_less_iff)
  then have "int (sum_list sizes) \<le> int n * \<lceil>r\<rceil>" by simp
  moreover have "0 \<le> \<lceil>r\<rceil>" using rpos by simp
  ultimately have "int (sum_list sizes) \<le> int (n * nat \<lceil>r\<rceil>)" by simp
  then have "sum_list sizes \<le> n * nat \<lceil>r\<rceil>" by (simp only: of_nat_le_iff)
  with ts show ?thesis by blast
qed


lemma pow2_pos: "0 < pow2 k"
  by (simp add: pow2_def)

lemma float64_below_one:
  assumes "0 \<le> x" and "x < 1"
  shows "0 \<le> float64 x \<and> float64 x < 2"
proof (cases "x = 0")
  case True
  then show ?thesis by (simp add: float64_def binary_round_def)
next
  case False
  with assms have xpos: "0 < x" by simp
  define k where "k = max (binary_exponent \<bar>x\<bar>) (- 1022) - int 53 + 1"
  define q where "q = pow2 k"
  have "binary_exponent \<bar>x\<bar> \<le> - 1"
    using xpos assms(2) by (simp add: binary_exponent_def)
  then have k0: "k \<le> 0" by (simp add: k_def)
  have qpos: "0 < q" unfolding q_def by (rule pow2_pos)
  have q1: "q \<le> 1"
  proof -
    have "q = 1 / 2 ^ nat (- k)" unfolding q_def using k0 by (rule pow2_nonpos)
    moreover have "(1::rat) \<le> 2 ^ nat (- k)" by simp
    then have "1 / (2::rat) ^ nat (- k) \<le> 1 / 1" by (intro divide_left_mono) simp_all
    ultimately show ?thesis by simp
  qed
  define m where "m = round_half_even (x / q)"
  have fl: "float64 x = of_int m * q"
    using xpos False by (simp add: float64_def binary_round_def Let_def m_def q_def k_def)
  have near: "\<bar>of_int m - x / q\<bar> \<le> 1 / 2"
    unfolding m_def by (rule round_half_even_near)
  have "0 \<le> x / q" using xpos qpos by simp
  with near have "- 1 / 2 \<le> (of_int m :: rat)" by linarith
  then have "(of_int (- 1) :: rat) < of_int m" by simp
  then have "- 1 < m" by (simp only: of_int_less_iff)
  then have m0: "0 \<le> m" by simp
  then have lo: "0 \<le> float64 x" unfolding fl using qpos by simp
  have "of_int m \<le> x / q + 1 / 2" using near by linarith
  then have "of_int m * q \<le> (x / q + 1 / 2) * q"
    using qpos by (intro mult_right_mono) simp_all
  also have "\<dots> = x + q / 2" using qpos by (simp add: field_simps)
  also have "\<dots> < 2" using assms(2) q1 by linarith
  finally have "float64 x < 2" unfolding fl .
  with lo show ?thesis by simp
qed

lemma target_size_small:
  assumes n: "sum_list sizes < n"
  shows "\<exists>t. target_size sizes n = Inr t"
proof -
  define x where "x = (of_nat (sum_list sizes) :: rat) / of_nat n"
  have n0: "0 < n" using n by simp
  have "0 \<le> x" by (simp add: x_def)
  moreover have "x < 1" using n n0 by (simp add: x_def)
  ultimately have "0 \<le> float64 x \<and> float64 x < 2" by (rule float64_below_one)
  then have "0 \<le> float64 x" and "float64 x < 2" by simp_all
  moreover have "(2::rat) \<le> 2 ^ 54" by simp
  ultimately have "binary_exponent (float64 x) < 54" by (intro binary_exponent_bound) linarith+
  then have "\<not> 1023 < binary_exponent \<bar>float64 x\<bar>" using \<open>0 \<le> float64 x\<close> by simp
  then show ?thesis
    using n0 by (simp add: target_size_def py_truediv_def Let_def x_def)
qed

subsection \<open>The fill loop stays in range on positive costs\<close>

lemma sum_snd_update:
  "i < length cs \<Longrightarrow>
   sum_list (map snd (cs[i := (a, snd (cs ! i) + s)])) = sum_list (map snd cs) + (s::nat)"
  by (simp add: map_update sum_list_update)

lemma sum_snd_lower:
  "\<forall>c \<in> set cs. t \<le> snd c \<Longrightarrow> length cs * t \<le> sum_list (map snd cs)"
  by (induction cs) auto

lemma fill_commands_step:
  assumes "idx < length cs" and "idx' < length cs"
    and "idx' = (if t \<le> snd (cs ! idx) then idx + 1 else idx)"
  shows "fill_commands t ((p, s) # us) cs idx =
         fill_commands t us (cs[idx' := (fst (cs ! idx') @ [p], snd (cs ! idx') + s)]) idx'"
  using assms by (simp add: Let_def)

text \<open>
  The invariant: every command before the current one has reached the target, and what
  is already placed plus what is still to place fits into \<open>length cs * t\<close>. A positive
  unit still to place then rules out that all commands are full.
\<close>

lemma fill_commands_in_range:
  assumes "idx < length cs"
    and "\<forall>j<idx. t \<le> snd (cs ! j)"
    and "sum_list (map snd cs) + sum_list (map snd us) \<le> length cs * t"
    and "\<forall>u \<in> set us. 0 < snd u"
  shows "\<exists>cs' idx'. fill_commands t us cs idx = Inr (cs', idx')
           \<and> idx' < length cs \<and> length cs' = length cs"
  using assms
proof (induction us arbitrary: cs idx)
  case Nil
  then show ?case by simp
next
  case (Cons u us)
  obtain p s where u: "u = (p, s)" by (cases u)
  with Cons.prems have s: "0 < s" by simp
  define i where "i = (if t \<le> snd (cs ! idx) then idx + 1 else idx)"
  have below: "\<forall>j<i. t \<le> snd (cs ! j)"
    using Cons.prems(2) by (auto simp: i_def less_Suc_eq)
  have in_range: "i < length cs"
  proof (rule ccontr)
    assume "\<not> i < length cs"
    with Cons.prems(1) have full: "t \<le> snd (cs ! idx)" "idx + 1 = length cs"
      by (auto simp: i_def split: if_splits)
    with below have "\<forall>j<length cs. t \<le> snd (cs ! j)" by (simp add: i_def)
    then have "\<forall>c \<in> set cs. t \<le> snd c" by (metis in_set_conv_nth)
    then have "length cs * t \<le> sum_list (map snd cs)" by (rule sum_snd_lower)
    with Cons.prems(3) s u show False by simp
  qed
  define cs1 where "cs1 = cs[i := (fst (cs ! i) @ [p], snd (cs ! i) + s)]"
  have len: "length cs1 = length cs" by (simp add: cs1_def)
  have 1: "i < length cs1" using in_range len by simp
  have 2: "\<forall>j<i. t \<le> snd (cs1 ! j)" using below by (simp add: cs1_def)
  have "sum_list (map snd cs1) = sum_list (map snd cs) + s"
    unfolding cs1_def using in_range by (rule sum_snd_update)
  then have 3: "sum_list (map snd cs1) + sum_list (map snd us) \<le> length cs1 * t"
    using Cons.prems(3) u len by simp
  have 4: "\<forall>u \<in> set us. 0 < snd u" using Cons.prems(4) by simp
  from Cons.IH[OF 1 2 3 4] obtain cs' idx' where
    r: "fill_commands t us cs1 i = Inr (cs', idx')" "idx' < length cs1" "length cs' = length cs1"
    by blast
  have "fill_commands t (u # us) cs idx = fill_commands t us cs1 i"
    unfolding u cs1_def using Cons.prems(1) in_range i_def by (rule fill_commands_step)
  with r len show ?case by simp
qed

lemma fill_commands_length:
  "fill_commands t us cs idx = Inr (cs', idx') \<Longrightarrow> length cs' = length cs"
proof (induction us arbitrary: cs idx)
  case Nil
  then show ?case by simp
next
  case (Cons u us)
  obtain p s where u: "u = (p, s)" by (cases u)
  define i where "i = (if t \<le> snd (cs ! idx) then idx + 1 else idx)"
  from Cons.prems have ok: "idx < length cs" "i < length cs"
    by (auto simp: u i_def Let_def split: if_splits)
  define cs1 where "cs1 = cs[i := (fst (cs ! i) @ [p], snd (cs ! i) + s)]"
  have "fill_commands t (u # us) cs idx = fill_commands t us cs1 i"
    unfolding u cs1_def using ok i_def by (rule fill_commands_step)
  with Cons.prems have "length cs' = length cs1" by (simp add: Cons.IH)
  then show ?case by (simp add: cs1_def)
qed

lemma partition_commands_length:
  "partition_commands n paths sizes = Inr commands \<Longrightarrow> length commands = n"
  by (auto simp: partition_commands_def dest: fill_commands_length
           split: sum.splits)

text \<open>With more commands than units still to place, the index cannot leave the range.\<close>

lemma fill_commands_few:
  assumes "idx + length us < length cs"
  shows "\<exists>cs' idx'. fill_commands t us cs idx = Inr (cs', idx')
           \<and> idx' < length cs \<and> length cs' = length cs"
  using assms
proof (induction us arbitrary: cs idx)
  case Nil
  then show ?case by simp
next
  case (Cons u us)
  obtain p s where u: "u = (p, s)" by (cases u)
  define i where "i = (if t \<le> snd (cs ! idx) then idx + 1 else idx)"
  have idx: "idx < length cs" using Cons.prems by simp
  have in_range: "i < length cs" using Cons.prems by (simp add: i_def)
  define cs1 where "cs1 = cs[i := (fst (cs ! i) @ [p], snd (cs ! i) + s)]"
  have len: "length cs1 = length cs" by (simp add: cs1_def)
  have "i + length us < length cs1" using Cons.prems len by (simp add: i_def)
  from Cons.IH[OF this] obtain cs' idx' where
    r: "fill_commands t us cs1 i = Inr (cs', idx')" "idx' < length cs1" "length cs' = length cs1"
    by blast
  have "fill_commands t (u # us) cs idx = fill_commands t us cs1 i"
    unfolding u cs1_def using idx in_range i_def by (rule fill_commands_step)
  with r len show ?case by simp
qed

lemma positive_costs_length:
  "\<forall>u \<in> set us. 0 < snd u \<Longrightarrow> length us \<le> sum_list (map snd us)"
proof (induction us)
  case Nil
  then show ?case by simp
next
  case (Cons u us)
  then have "0 < snd u" and "length us \<le> sum_list (map snd us)" by simp_all
  then show ?case by simp
qed

text \<open>The target of eight files of \<open>2^53\<close> bytes and one of one byte, in eight batches.\<close>

lemma float64_huge_quotient: "float64 (72057594037927937 / 8) = 9007199254740992"
  by code_simp

lemma binary_exponent_huge: "binary_exponent 9007199254740992 = 53"
  by code_simp

lemma huge_target: "target_size (map snd huge_units) 8 = Inr 9007199254740992"
  by (simp add: target_size_def py_truediv_def huge_units_def float64_huge_quotient
        binary_exponent_huge)

text \<open>
  C7 (as the code has it). If every unit's cost is strictly positive, \<open>num_batches \<ge> 1\<close>
  and the total cost is below \<open>2^53\<close>, the fill loop started as the scripts start it (fresh
  commands, index 0, the target of the units' total) raises no \<^verbatim>\<open>IndexError\<close>: the target
  is computed, the loop returns with an index of at most \<open>num_batches - 1\<close>, and so does
  the partitioner. The index only grows, so it is in range at every append. With a
  zero-cost unit the index can run past the last command: sizes \<open>[5, 0]\<close> in one batch
  raise \<^verbatim>\<open>IndexError\<close>. Without the bound on the total it can do so on positive costs
  too: for eight files of \<open>2^53\<close> bytes and one of one byte in eight batches the float
  quotient is \<open>2^53\<close>, the eight large files fill the eight commands, and the ninth
  file raises \<^verbatim>\<open>IndexError\<close>.
\<close>

theorem fill_commands_index_in_range:
  assumes "\<forall>u \<in> set units. 0 < snd u" and "1 \<le> num_batches"
    and "sum_list (map snd units) < 2 ^ 53"
  shows "(\<exists>target commands append_idx.
            target_size (map snd units) num_batches = Inr target
            \<and> fill_commands target units (replicate num_batches ([''mypy''], 0)) 0
                = Inr (commands, append_idx)
            \<and> append_idx \<le> num_batches - 1
            \<and> length commands = num_batches
            \<and> partition_commands num_batches (map fst units) (map snd units) = Inr commands)
         \<and> partition_commands 1 [''a'', ''b''] [5, 0] = Inl IndexError"
proof -
  let ?cs = "replicate num_batches ([''mypy''], 0 :: nat)"
  have n: "0 < num_batches" using assms(2) by simp
  have "\<exists>t cs' idx'. target_size (map snd units) num_batches = Inr t
          \<and> fill_commands t units ?cs 0 = Inr (cs', idx')
          \<and> idx' < length ?cs \<and> length cs' = length ?cs"
  proof (cases "num_batches \<le> sum_list (map snd units)")
    case True
    from target_size_covers[OF n True assms(3)] obtain t where
      t: "target_size (map snd units) num_batches = Inr t"
      and covers: "sum_list (map snd units) \<le> num_batches * t"
      by blast
    have 1: "0 < length ?cs" using n by simp
    have 2: "\<forall>j<0. t \<le> snd (?cs ! j)" by simp
    have 3: "sum_list (map snd ?cs) + sum_list (map snd units) \<le> length ?cs * t"
      using covers by (simp add: sum_list_replicate)
    from fill_commands_in_range[OF 1 2 3 assms(1)] t show ?thesis by blast
  next
    case False
    then have small: "sum_list (map snd units) < num_batches" by simp
    from target_size_small[OF small] obtain t where
      t: "target_size (map snd units) num_batches = Inr t"
      by blast
    have "length units \<le> sum_list (map snd units)"
      using assms(1) by (rule positive_costs_length)
    with small have "0 + length units < length ?cs" by simp
    from fill_commands_few[OF this] t show ?thesis by blast
  qed
  then obtain t cs' idx' where
    t: "target_size (map snd units) num_batches = Inr t"
    and r: "fill_commands t units ?cs 0 = Inr (cs', idx')"
      "idx' < length ?cs" "length cs' = length ?cs"
    by blast
  have "partition_commands num_batches (map fst units) (map snd units) = Inr cs'"
    using t r(1) by (simp add: partition_commands_def zip_map_fst_snd)
  moreover have "partition_commands 1 [''a'', ''b''] [5, 0] = Inl IndexError"
    by code_simp
  ultimately show ?thesis using t r by auto
qed

theorem fill_commands_index_in_range_witness:
  "(\<exists>target commands append_idx.
      target_size (map snd scenario2_units) 2 = Inr target
      \<and> fill_commands target scenario2_units (replicate 2 ([''mypy''], 0)) 0
          = Inr (commands, append_idx)
      \<and> append_idx \<le> 2 - 1
      \<and> length commands = 2
      \<and> partition_commands 2 (map fst scenario2_units) (map snd scenario2_units) = Inr commands)
   \<and> partition_commands 1 [''a'', ''b''] [5, 0] = Inl IndexError"
proof -
  have positive: "\<forall>u \<in> set scenario2_units. 0 < snd u"
    by (simp add: scenario2_units_def)
  have batches: "1 \<le> (2 :: nat)" by simp
  have total: "sum_list (map snd scenario2_units) < 2 ^ 53"
    by (simp add: scenario2_units_def)
  show ?thesis by (rule fill_commands_index_in_range [OF positive batches total])
qed

theorem fill_commands_huge_total_counterexample:
  "list_all (\<lambda>u. 0 < snd u) huge_units
   \<and> partition_commands 8 (map fst huge_units) (map snd huge_units) = Inl IndexError"
proof -
  have "list_all (\<lambda>u. 0 < snd u) huge_units"
    by (simp add: huge_units_def)
  moreover have "partition_commands 8 (map fst huge_units) (map snd huge_units) = Inl IndexError"
    unfolding partition_commands_def huge_target
    by (simp add: huge_units_def Let_def)
  ultimately show ?thesis by simp
qed

text \<open>
  C1 (the code departs from the claim). A flush of one empty file, for instance a lone
  \<^verbatim>\<open>__init__.py\<close> of size 0: \<open>num_procs = 1\<close>, the target is 0, the first test
  \<^verbatim>\<open>commands[0][1] >= target_size\<close> holds at once, the index moves to 1 and the append
  raises \<^verbatim>\<open>IndexError\<close>. The unit is assigned to no batch.
\<close>

theorem process_layer_empty_file_raises:
  "process_layer (\<lambda>p. 0) execute_command [''pkg/__init__.py''] = Inl IndexError"
proof -
  have "process_layer_commands (\<lambda>p. 0) [''pkg/__init__.py''] = Inl IndexError"
    by code_simp
  then show ?thesis by (simp add: process_layer_def)
qed

text \<open>The spec's scenario 2: costs 50, 10, 10, 10, 20 in two batches of 50 each.\<close>

lemma scenario2_partition:
  "partition_commands 2 (map fst scenario2_units) (map snd scenario2_units)
   = Inr [([''mypy'', ''u1''], 50), ([''mypy'', ''u2'', ''u3'', ''u4'', ''u5''], 50)]"
  by code_simp


subsection \<open>What the fill loop builds when it returns\<close>

lemma concat_update_last_nonempty:
  assumes "i < length xs"
    and "\<forall>j. i < j \<and> j < length xs \<longrightarrow> f (xs ! j) = []"
    and "f y = f (xs ! i) @ [p]"
  shows "concat (map f (xs[i := y])) = concat (map f xs) @ [p]"
proof -
  have tail: "concat (map f (drop (Suc i) xs)) = []"
  proof -
    have "\<forall>x \<in> set (drop (Suc i) xs). f x = []"
    proof
      fix x assume "x \<in> set (drop (Suc i) xs)"
      then obtain k where k: "k < length (drop (Suc i) xs)" "drop (Suc i) xs ! k = x"
        unfolding in_set_conv_nth by blast
      from k(1) have "Suc i + k < length xs" by simp
      moreover from k have "x = xs ! (Suc i + k)" by simp
      ultimately show "f x = []" using assms(2) by simp
    qed
    then show ?thesis by simp
  qed
  have split: "xs = take i xs @ xs ! i # drop (Suc i) xs"
    using assms(1) by (rule id_take_nth_drop)
  have "concat (map f xs) = concat (map f (take i xs @ xs ! i # drop (Suc i) xs))"
    by (rule arg_cong[where f = "\<lambda>z. concat (map f z)", OF split])
  also have "\<dots> = concat (map f (take i xs)) @ f (xs ! i)"
    using tail by simp
  finally have before: "concat (map f xs) = concat (map f (take i xs)) @ f (xs ! i)" .
  have "xs[i := y] = take i xs @ y # drop (Suc i) xs"
    using assms(1) by (rule upd_conv_take_nth_drop)
  then have "concat (map f (xs[i := y])) = concat (map f (take i xs)) @ f y"
    using tail by simp
  with before assms(3) show ?thesis by simp
qed

text \<open>
  With every command after the current one still empty, the files of the commands, read
  in command order, are the files placed so far followed by the files still to place, in
  their order; no command costs more than the target plus the largest size.
\<close>

lemma fill_commands_sound:
  assumes "fill_commands t us cs idx = Inr (cs', idx')"
    and "\<forall>c \<in> set cs. fst c \<noteq> []"
    and "\<forall>j. idx < j \<and> j < length cs \<longrightarrow> tl (fst (cs ! j)) = [] \<and> snd (cs ! j) = 0"
    and "\<forall>u \<in> set us. snd u \<le> m"
    and "\<forall>c \<in> set cs. snd c \<le> t + m"
  shows "concat (map (\<lambda>c. tl (fst c)) cs') = concat (map (\<lambda>c. tl (fst c)) cs) @ map fst us
         \<and> sum_list (map snd cs') = sum_list (map snd cs) + sum_list (map snd us)
         \<and> (\<forall>c \<in> set cs'. fst c \<noteq> [] \<and> snd c \<le> t + m)
         \<and> idx \<le> idx'"
  using assms
proof (induction us arbitrary: cs idx)
  case Nil
  then show ?case by simp
next
  case (Cons u us)
  obtain p s where u: "u = (p, s)" by (cases u)
  define i where "i = (if t \<le> snd (cs ! idx) then idx + 1 else idx)"
  from Cons.prems(1) have ok: "idx < length cs" "i < length cs"
    by (auto simp: u i_def Let_def split: if_splits)
  define cs1 where "cs1 = cs[i := (fst (cs ! i) @ [p], snd (cs ! i) + s)]"
  have step: "fill_commands t (u # us) cs idx = fill_commands t us cs1 i"
    unfolding u cs1_def using ok i_def by (rule fill_commands_step)
  with Cons.prems(1) have run: "fill_commands t us cs1 i = Inr (cs', idx')" by simp
  have i_ge: "idx \<le> i" by (simp add: i_def)
  have later: "\<forall>j. i < j \<and> j < length cs \<longrightarrow> tl (fst (cs ! j)) = [] \<and> snd (cs ! j) = 0"
    using Cons.prems(3) i_ge by auto
  have nonempty_i: "fst (cs ! i) \<noteq> []" using Cons.prems(2) ok(2) by simp
  have s: "s \<le> m" using Cons.prems(4) u by simp
  have cost_i: "snd (cs ! i) + s \<le> t + m"
  proof (cases "t \<le> snd (cs ! idx)")
    case True
    then have "i = idx + 1" by (simp add: i_def)
    with Cons.prems(3) ok(2) have "snd (cs ! i) = 0" by simp
    with s show ?thesis by simp
  next
    case False
    then have "i = idx" by (simp add: i_def)
    with False s show ?thesis by simp
  qed
  have 2: "\<forall>c \<in> set cs1. fst c \<noteq> []"
  proof
    fix c assume "c \<in> set cs1"
    then have "c \<in> insert (fst (cs ! i) @ [p], snd (cs ! i) + s) (set cs)"
      unfolding cs1_def
      using set_update_subset_insert[of cs i "(fst (cs ! i) @ [p], snd (cs ! i) + s)"] by blast
    with Cons.prems(2) show "fst c \<noteq> []" by auto
  qed
  have 3: "\<forall>j. i < j \<and> j < length cs1 \<longrightarrow> tl (fst (cs1 ! j)) = [] \<and> snd (cs1 ! j) = 0"
    using later by (simp add: cs1_def)
  have 4: "\<forall>u \<in> set us. snd u \<le> m" using Cons.prems(4) by simp
  have 5: "\<forall>c \<in> set cs1. snd c \<le> t + m"
  proof
    fix c assume "c \<in> set cs1"
    then have "c \<in> insert (fst (cs ! i) @ [p], snd (cs ! i) + s) (set cs)"
      unfolding cs1_def
      using set_update_subset_insert[of cs i "(fst (cs ! i) @ [p], snd (cs ! i) + s)"] by blast
    with Cons.prems(5) cost_i show "snd c \<le> t + m" by auto
  qed
  have files: "concat (map (\<lambda>c. tl (fst c)) cs1) = concat (map (\<lambda>c. tl (fst c)) cs) @ [p]"
    unfolding cs1_def
  proof (rule concat_update_last_nonempty[OF ok(2)])
    show "\<forall>j. i < j \<and> j < length cs \<longrightarrow> tl (fst (cs ! j)) = []" using later by simp
    show "tl (fst (fst (cs ! i) @ [p], snd (cs ! i) + s)) = tl (fst (cs ! i)) @ [p]"
      using nonempty_i by simp
  qed
  have cost: "sum_list (map snd cs1) = sum_list (map snd cs) + s"
    unfolding cs1_def using ok(2) by (rule sum_snd_update)
  from Cons.IH[OF run 2 3 4 5] have ih:
    "concat (map (\<lambda>c. tl (fst c)) cs') = concat (map (\<lambda>c. tl (fst c)) cs1) @ map fst us"
    "sum_list (map snd cs') = sum_list (map snd cs1) + sum_list (map snd us)"
    "\<forall>c \<in> set cs'. fst c \<noteq> [] \<and> snd c \<le> t + m"
    "i \<le> idx'"
    by blast+
  have "concat (map (\<lambda>c. tl (fst c)) cs') = concat (map (\<lambda>c. tl (fst c)) cs) @ map fst (u # us)"
    using ih(1) files by (simp add: u)
  moreover have "sum_list (map snd cs') = sum_list (map snd cs) + sum_list (map snd (u # us))"
    using ih(2) cost by (simp add: u)
  moreover have "idx \<le> idx'" using ih(4) i_ge by simp
  ultimately show ?case using ih(3) by blast
qed

lemma partition_commands_sound:
  assumes "partition_commands n paths sizes = Inr commands"
    and "length sizes = length paths"
    and "\<forall>s \<in> set sizes. s \<le> m"
  shows "length commands = n
         \<and> concat (map (\<lambda>c. tl (fst c)) commands) = paths
         \<and> sum_list (map snd commands) = sum_list sizes
         \<and> (\<exists>target. target_size sizes n = Inr target
              \<and> (\<forall>c \<in> set commands. fst c \<noteq> [] \<and> snd c \<le> target + m))"
proof -
  let ?cs = "replicate n ([''mypy''], 0 :: nat)"
  from assms(1) obtain t idx' where
    t: "target_size sizes n = Inr t"
    and run: "fill_commands t (zip paths sizes) ?cs 0 = Inr (commands, idx')"
    by (auto simp: partition_commands_def split: sum.splits)
  have 2: "\<forall>c \<in> set ?cs. fst c \<noteq> []" by simp
  have 3: "\<forall>j. 0 < j \<and> j < length ?cs \<longrightarrow> tl (fst (?cs ! j)) = [] \<and> snd (?cs ! j) = 0"
    by simp
  have 4: "\<forall>u \<in> set (zip paths sizes). snd u \<le> m"
    using assms(3) by (auto dest: set_zip_rightD)
  have 5: "\<forall>c \<in> set ?cs. snd c \<le> t + m" by simp
  have empty: "concat (map (\<lambda>c. tl (fst c)) ?cs) = []" by simp
  have zero: "sum_list (map snd ?cs) = 0" by (simp add: sum_list_replicate)
  have fsts: "map fst (zip paths sizes) = paths" using assms(2) by simp
  have snds: "map snd (zip paths sizes) = sizes" using assms(2) by simp
  from fill_commands_sound[OF run 2 3 4 5] fill_commands_length[OF run]
  have "length commands = n
         \<and> concat (map (\<lambda>c. tl (fst c)) commands) = paths
         \<and> sum_list (map snd commands) = sum_list sizes
         \<and> (\<forall>c \<in> set commands. fst c \<noteq> [] \<and> snd c \<le> t + m)"
    by (simp only: empty zero fsts snds append_Nil add_0 length_replicate) simp
  with t show ?thesis by blast
qed

lemma submit_commands_files:
  "concat (map tl (submit_commands commands)) = concat (map (\<lambda>c. tl (fst c)) commands)"
proof (induction commands)
  case Nil
  then show ?case by (simp add: submit_commands_def)
next
  case (Cons c commands)
  have "\<not> 1 < length (fst c) \<Longrightarrow> tl (fst c) = []"
    by (cases "fst c") auto
  with Cons show ?case by (auto simp: submit_commands_def)
qed

lemma submit_commands_count:
  "length (submit_commands commands) \<le> length (concat (map (\<lambda>c. tl (fst c)) commands))"
proof (induction commands)
  case Nil
  then show ?case by (simp add: submit_commands_def)
next
  case (Cons c commands)
  have "1 < length (fst c) \<Longrightarrow> 1 \<le> length (tl (fst c))" by simp
  with Cons show ?case by (auto simp: submit_commands_def)
qed

lemma submit_commands_le: "length (submit_commands commands) \<le> length commands"
  by (simp add: submit_commands_def)

text \<open>
  On files of positive size with a total below \<open>2^53\<close> a flush returns: the partitioner
  stays in range, and a layer that is not empty leaves at least one command to run.
\<close>

lemma process_layer_returns:
  assumes "\<forall>p \<in> set layer. 0 < getsize p" and "layer \<noteq> []"
    and "sum_list (map getsize layer) < 2 ^ 53"
  shows "\<exists>commands.
           process_layer_commands getsize layer = Inr commands
           \<and> process_layer getsize execute_command layer
               = Inr (map execute_command (submit_commands commands))
           \<and> submit_commands commands \<noteq> []"
proof -
  define n where "n = min 16 (length layer)"
  define units where "units = zip layer (map getsize layer)"
  have n: "0 < n" using assms(2) by (cases layer) (simp_all add: n_def)
  have fsts: "map fst units = layer" by (simp add: units_def)
  have snds: "map snd units = map getsize layer" by (simp add: units_def)
  have positive: "\<forall>u \<in> set units. 0 < snd u"
    using assms(1) by (auto simp: units_def dest!: set_zip_rightD)
  have "length units \<le> sum_list (map snd units)"
    using positive by (rule positive_costs_length)
  then have "n \<le> sum_list (map snd units)" by (simp add: n_def units_def)
  from target_size_covers[OF n this] assms(3) obtain t where
    t: "target_size (map snd units) n = Inr t"
    and covers: "sum_list (map snd units) \<le> n * t"
    by (auto simp: snds)
  have 1: "0 < length (replicate n ([''mypy''], 0 :: nat))" using n by simp
  have below: "\<forall>j<0. t \<le> snd (replicate n ([''mypy''], 0 :: nat) ! j)"
    by simp
  have fits: "sum_list (map snd (replicate n ([''mypy''], 0 :: nat))) + sum_list (map snd units)
              \<le> length (replicate n ([''mypy''], 0 :: nat)) * t"
    using covers by (simp add: sum_list_replicate)
  from fill_commands_in_range[OF 1 below fits positive] obtain commands idx' where
    run: "fill_commands t units (replicate n ([''mypy''], 0)) 0 = Inr (commands, idx')"
    by blast
  have part: "partition_commands n layer (map getsize layer) = Inr commands"
    using t run by (simp add: partition_commands_def units_def snds)
  then have cmds: "process_layer_commands getsize layer = Inr commands"
    by (simp add: process_layer_commands_def n_def)
  have "concat (map (\<lambda>c. tl (fst c)) commands) = layer"
    using partition_commands_sound[OF part, of "sum_list (map getsize layer)"]
    by (simp add: member_le_sum_list)
  then have "concat (map tl (submit_commands commands)) \<noteq> []"
    using assms(2) by (simp add: submit_commands_files)
  then have nonempty: "submit_commands commands \<noteq> []" by auto
  then have "process_layer getsize execute_command layer
               = Inr (map execute_command (submit_commands commands))"
    using cmds by (simp add: process_layer_def execute_commands_def)
  with cmds nonempty show ?thesis by blast
qed

subsection \<open>How many batches are requested\<close>

text \<open>
  C5 (as the code has it). A flush of the accumulating scheduler creates
  \<open>min 16 (length layer)\<close> commands; the one-shot script mypy-pre.py always creates 8,
  whatever the number of files. In both, the commands left empty are not submitted, so
  the number of commands submitted is at most the number of commands created and at
  most the number of files.
\<close>

theorem num_batches_requested:
  "(process_layer_commands getsize layer = Inr commands
      \<longrightarrow> length commands = min 16 (length layer)
          \<and> length (submit_commands commands) \<le> min 16 (length layer))
   \<and> (pre_main_commands getsize res = Inr commands'
      \<longrightarrow> length commands' = 8
          \<and> length (submit_commands commands') \<le> min 8 (length res))"
proof (intro conjI impI)
  assume "process_layer_commands getsize layer = Inr commands"
  then have part: "partition_commands (min 16 (length layer)) layer (map getsize layer) = Inr commands"
    by (simp add: process_layer_commands_def Let_def)
  from partition_commands_sound[OF part, of "sum_list (map getsize layer)"]
  have sound: "length commands = min 16 (length layer)"
    "concat (map (\<lambda>c. tl (fst c)) commands) = layer"
    by (simp_all add: member_le_sum_list)
  show "length commands = min 16 (length layer)" by (rule sound(1))
  have "length (submit_commands commands) \<le> length layer"
    using submit_commands_count[of commands] sound(2) by simp
  with submit_commands_le[of commands] sound(1)
  show "length (submit_commands commands) \<le> min 16 (length layer)" by simp
next
  assume "pre_main_commands getsize res = Inr commands'"
  then have part: "partition_commands 8 res (map getsize res) = Inr commands'"
    by (simp add: pre_main_commands_def Let_def)
  from partition_commands_sound[OF part, of "sum_list (map getsize res)"]
  have sound: "length commands' = 8"
    "concat (map (\<lambda>c. tl (fst c)) commands') = res"
    by (simp_all add: member_le_sum_list)
  show "length commands' = 8" by (rule sound(1))
  have "length (submit_commands commands') \<le> length res"
    using submit_commands_count[of commands'] sound(2) by simp
  with submit_commands_le[of commands'] sound(1)
  show "length (submit_commands commands') \<le> min 8 (length res)" by simp
qed

theorem num_batches_requested_witness:
  "process_layer_commands (\<lambda>p. 1) [''a'', ''b'', ''c'']
     = Inr [([''mypy'', ''a''], 1), ([''mypy'', ''b''], 1), ([''mypy'', ''c''], 1)]
   \<and> length [([''mypy'', ''a''], 1 :: nat), ([''mypy'', ''b''], 1), ([''mypy'', ''c''], 1)]
       = min 16 (length [''a'', ''b'', ''c''])
   \<and> pre_main_commands (\<lambda>p. 1) [''a'', ''b'', ''c'']
     = Inr [([''mypy'', ''a''], 1), ([''mypy'', ''b''], 1), ([''mypy'', ''c''], 1),
            ([''mypy''], 0), ([''mypy''], 0), ([''mypy''], 0), ([''mypy''], 0), ([''mypy''], 0)]
   \<and> length [([''mypy'', ''a''], 1 :: nat), ([''mypy'', ''b''], 1), ([''mypy'', ''c''], 1),
            ([''mypy''], 0), ([''mypy''], 0), ([''mypy''], 0), ([''mypy''], 0), ([''mypy''], 0)]
       = 8"
proof -
  have a: "process_layer_commands (\<lambda>p. 1) [''a'', ''b'', ''c'']
     = Inr [([''mypy'', ''a''], 1), ([''mypy'', ''b''], 1), ([''mypy'', ''c''], 1)]"
    by code_simp
  have b: "pre_main_commands (\<lambda>p. 1) [''a'', ''b'', ''c'']
     = Inr [([''mypy'', ''a''], 1), ([''mypy'', ''b''], 1), ([''mypy'', ''c''], 1),
            ([''mypy''], 0), ([''mypy''], 0), ([''mypy''], 0), ([''mypy''], 0), ([''mypy''], 0)]"
    by code_simp
  from num_batches_requested
    [of "\<lambda>p. 1" "[''a'', ''b'', ''c'']"
        "[([''mypy'', ''a''], 1), ([''mypy'', ''b''], 1), ([''mypy'', ''c''], 1)]"
        "[''a'', ''b'', ''c'']"
        "[([''mypy'', ''a''], 1), ([''mypy'', ''b''], 1), ([''mypy'', ''c''], 1),
          ([''mypy''], 0), ([''mypy''], 0), ([''mypy''], 0), ([''mypy''], 0), ([''mypy''], 0)]"]
  have "length [([''mypy'', ''a''], 1 :: nat), ([''mypy'', ''b''], 1), ([''mypy'', ''c''], 1)]
       = min 16 (length [''a'', ''b'', ''c''])"
    and "length [([''mypy'', ''a''], 1 :: nat), ([''mypy'', ''b''], 1), ([''mypy'', ''c''], 1),
            ([''mypy''], 0), ([''mypy''], 0), ([''mypy''], 0), ([''mypy''], 0), ([''mypy''], 0)]
       = 8"
    using a b by (simp_all only: simp_thms)
  with a b show ?thesis by blast
qed

theorem num_batches_counterexample:
  "pre_main_commands (\<lambda>p. 1) [''a'', ''b'', ''c'']
     = Inr [([''mypy'', ''a''], 1), ([''mypy'', ''b''], 1), ([''mypy'', ''c''], 1),
            ([''mypy''], 0), ([''mypy''], 0), ([''mypy''], 0), ([''mypy''], 0), ([''mypy''], 0)]
   \<and> length [([''mypy'', ''a''], 1 :: nat), ([''mypy'', ''b''], 1), ([''mypy'', ''c''], 1),
            ([''mypy''], 0), ([''mypy''], 0), ([''mypy''], 0), ([''mypy''], 0), ([''mypy''], 0)]
       \<noteq> min 8 (length [''a'', ''b'', ''c''])"
proof -
  have "pre_main_commands (\<lambda>p. 1) [''a'', ''b'', ''c'']
     = Inr [([''mypy'', ''a''], 1), ([''mypy'', ''b''], 1), ([''mypy'', ''c''], 1),
            ([''mypy''], 0), ([''mypy''], 0), ([''mypy''], 0), ([''mypy''], 0), ([''mypy''], 0)]"
    by code_simp
  then show ?thesis by simp
qed

section \<open>Properties of the chunking\<close>


lemma concat_slices:
  assumes "\<And>i. i < n \<Longrightarrow> f i \<le> f (Suc i)"
  shows "concat (map (\<lambda>i. slice b (f i) (f (Suc i))) [0..<n]) = slice b (f 0) (f n)"
  using assms
proof (induction n)
  case 0
  then show ?case by (simp add: slice_def)
next
  case (Suc n)
  have mono: "f 0 \<le> f n"
  proof -
    have "\<And>j. j \<le> n \<Longrightarrow> f 0 \<le> f j"
    proof -
      fix j show "j \<le> n \<Longrightarrow> f 0 \<le> f j"
      proof (induction j)
        case 0
        then show ?case by simp
      next
        case (Suc j)
        then have "f 0 \<le> f j" "f j \<le> f (Suc j)" using Suc.prems \<open>\<And>i. i < Suc n \<Longrightarrow> f i \<le> f (Suc i)\<close>
          by simp_all
        then show ?case by simp
      qed
    qed
    then show ?thesis by simp
  qed
  have step: "f n \<le> f (Suc n)" using Suc.prems by simp
  have "concat (map (\<lambda>i. slice b (f i) (f (Suc i))) [0..<Suc n])
        = slice b (f 0) (f n) @ slice b (f n) (f (Suc n))"
    using Suc by simp
  also have "\<dots> = take (f n - f 0) (drop (f 0) b)
                   @ take (f (Suc n) - f n) (drop (f n - f 0) (drop (f 0) b))"
    using mono by (simp add: slice_def)
  also have "\<dots> = take ((f n - f 0) + (f (Suc n) - f n)) (drop (f 0) b)"
    by (simp only: take_add)
  also have "(f n - f 0) + (f (Suc n) - f n) = f (Suc n) - f 0"
    using mono step by simp
  finally show ?case by (simp add: slice_def)
qed


lemma chunk_bound_mono:
  "i * k + min i m \<le> Suc i * k + min (Suc i) (m::nat)"
  by (simp add: min_def)

lemma chunk_bound_le:
  assumes "i \<le> n" and "m < n"
  shows "i * k + min i m \<le> n * k + (m::nat)"
proof -
  have "i * k \<le> n * k" using assms(1) by simp
  moreover have "min i m \<le> m" by simp
  ultimately show ?thesis by (rule add_mono)
qed

lemma length_chunk:
  assumes "i < n" and "m < n" and "length b = n * k + m"
  shows "length (slice b (i * k + min i m) (Suc i * k + min (Suc i) m))
         = k + (if i < m then 1 else 0)"
proof -
  have "Suc i * k + min (Suc i) m \<le> length b"
    using chunk_bound_le[of "Suc i" n m k] assms by simp
  then show ?thesis by (auto simp: slice_def min_def)
qed

text \<open>
  C10. For a shuffle that permutes its argument and \<open>n \<ge> 1\<close>, \<^verbatim>\<open>chunk_array\<close> returns
  exactly \<open>n\<close> chunks; they are consecutive slices of the shuffled list (their
  concatenation is that list), so together they hold exactly the elements of the
  input, each as often as the input does; chunk \<open>i\<close> has \<open>len div n\<close> elements, one more
  for the first \<open>len mod n\<close> chunks, so any two lengths differ by at most one; and
  \<^verbatim>\<open>main\<close> runs the worker once on each chunk, in order.
\<close>

theorem chunk_array_partitions:
  assumes "mset (shuffle array) = mset array" and "1 \<le> n"
  shows "\<exists>chunks.
           chunk_array shuffle array n = Inr chunks
           \<and> length chunks = n
           \<and> concat chunks = shuffle array
           \<and> mset (concat chunks) = mset array
           \<and> (\<forall>i<n. length (chunks ! i)
                 = length array div n + (if i < length array mod n then 1 else 0))
           \<and> (\<forall>c \<in> set chunks. \<forall>d \<in> set chunks. length c \<le> length d + 1)
           \<and> z_main shuffle run_mypy array n = Inr (map run_mypy chunks)"
proof -
  define b where "b = shuffle array"
  define k where "k = length b div n"
  define m where "m = length b mod n"
  define f where "f = (\<lambda>i. i * k + min i m)"
  define chunks where "chunks = map (\<lambda>i. slice b (f i) (f (Suc i))) [0..<n]"
  have n: "0 < n" using assms(2) by simp
  have m: "m < n" using n by (simp add: m_def)
  have len: "length b = n * k + m" by (simp add: k_def m_def)
  have len_eq: "length b = length array"
    using assms(1) b_def by (metis size_mset)
  have run: "chunk_array shuffle array n = Inr chunks"
    using n by (simp add: chunk_array_def Let_def chunks_def f_def b_def k_def m_def)
  have count: "length chunks = n" by (simp add: chunks_def)
  have "concat chunks = slice b (f 0) (f n)"
    unfolding chunks_def
    by (rule concat_slices) (simp add: f_def chunk_bound_mono del: mult_Suc)
  also have "f 0 = 0" by (simp add: f_def)
  also have "f n = length b" using m len by (simp add: f_def)
  finally have cat: "concat chunks = b" by (simp add: slice_def)
  have lens: "\<forall>i<n. length (chunks ! i) = k + (if i < m then 1 else 0)"
  proof (intro allI impI)
    fix i assume i: "i < n"
    then have "chunks ! i = slice b (f i) (f (Suc i))" by (simp add: chunks_def)
    then show "length (chunks ! i) = k + (if i < m then 1 else 0)"
      using length_chunk[OF i m len] by (simp add: f_def)
  qed
  have even: "\<forall>c \<in> set chunks. \<forall>d \<in> set chunks. length c \<le> length d + 1"
  proof (intro ballI)
    fix c d assume "c \<in> set chunks" "d \<in> set chunks"
    then obtain i j where "i < n" "c = chunks ! i" "j < n" "d = chunks ! j"
      using count by (metis in_set_conv_nth)
    then show "length c \<le> length d + 1" using lens by simp
  qed
  have main: "z_main shuffle run_mypy array n = Inr (map run_mypy chunks)"
    using n run by (simp add: z_main_def)
  show ?thesis
    using run count cat lens even assms(1) len_eq main
    by (simp add: b_def k_def m_def)
qed

theorem chunk_array_partitions_witness:
  "\<exists>chunks.
     chunk_array rev [1, 2, 3, 4, 5, 6, 7 :: nat] 3 = Inr chunks
     \<and> length chunks = 3
     \<and> concat chunks = rev [1, 2, 3, 4, 5, 6, 7]
     \<and> mset (concat chunks) = mset [1, 2, 3, 4, 5, 6, 7]
     \<and> length (chunks ! 0) = 3 \<and> length (chunks ! 1) = 2 \<and> length (chunks ! 2) = 2
     \<and> z_main rev length [1, 2, 3, 4, 5, 6, 7 :: nat] 3 = Inr (map length chunks)"
proof -
  have permutes: "mset (rev [1, 2, 3, 4, 5, 6, 7 :: nat]) = mset [1, 2, 3, 4, 5, 6, 7]"
    by (rule mset_rev)
  have batches: "1 \<le> (3 :: nat)" by simp
  from chunk_array_partitions
    [of rev "[1, 2, 3, 4, 5, 6, 7 :: nat]" 3 length, OF permutes batches]
  obtain chunks where c:
    "chunk_array rev [1, 2, 3, 4, 5, 6, 7 :: nat] 3 = Inr chunks"
    "length chunks = 3"
    "concat chunks = rev [1, 2, 3, 4, 5, 6, 7]"
    "mset (concat chunks) = mset [1, 2, 3, 4, 5, 6, 7]"
    "\<forall>i<3. length (chunks ! i)
       = length [1, 2, 3, 4, 5, 6, 7 :: nat] div 3
         + (if i < length [1, 2, 3, 4, 5, 6, 7 :: nat] mod 3 then 1 else 0)"
    "z_main rev length [1, 2, 3, 4, 5, 6, 7 :: nat] 3 = Inr (map length chunks)"
    by blast
  from c(5) have "length (chunks ! 0) = 3" "length (chunks ! 1) = 2" "length (chunks ! 2) = 2"
    by simp_all
  with c(1-4) c(6) show ?thesis by blast
qed

section \<open>Properties of the metadata stores\<close>

subsection \<open>Library facts\<close>

lemma py_int_of_int: "py_int (of_int z) = z"
  by (simp add: py_int_def)

lemma universal_newlines_no_cr:
  "CHR 0x0D \<notin> set s \<Longrightarrow> universal_newlines s = s"
  by (induction s rule: universal_newlines.induct) auto



subsection \<open>Path resolution\<close>

text \<open>
  A path that resolves keeps its location in every tree that has a directory wherever the
  first tree has one: only directories are passed on the way.
\<close>

lemma walk_stable:
  assumes "walk fs here cs = Inr loc"
    and "\<And>l t. fs l = Some (Dir t) \<Longrightarrow> \<exists>t'. fs' l = Some (Dir t')"
  shows "walk fs' here cs = Inr loc"
  using assms(1)
proof (induction cs arbitrary: here)
  case Nil
  then show ?case by simp
next
  case (Cons c cs)
  show ?case
  proof (cases "c = [] \<or> c = ''.''")
    case True
    with Cons show ?thesis by simp
  next
    case False
    note plain = this
    show ?thesis
    proof (cases "c = ''..''")
      case True
      with plain Cons show ?thesis by simp
    next
      case False
      from plain False have step:
        "\<And>g. walk g here (c # cs) =
           (case g (here @ [c]) of
              None \<Rightarrow> if cs = [] then Inr (here @ [c]) else Inl FileNotFoundError
            | Some (Dir t) \<Rightarrow> walk g (here @ [c]) cs
            | Some (File content t) \<Rightarrow>
                if cs = [] then Inr (here @ [c]) else Inl NotADirectoryError)"
        by simp
      show ?thesis
      proof (cases "fs (here @ [c])")
        case None
        with Cons.prems step[of fs] have e: "cs = []" "loc = here @ [c]"
          by (auto split: if_splits)
        show ?thesis unfolding step[of fs'] using e
          by (auto split: option.splits node.splits)
      next
        case (Some n)
        show ?thesis
        proof (cases n)
          case (File content t)
          with Some Cons.prems step[of fs] have e: "cs = []" "loc = here @ [c]"
            by (auto split: if_splits)
          show ?thesis unfolding step[of fs'] using e
            by (auto split: option.splits node.splits)
        next
          case (Dir t)
          with Some Cons.prems step[of fs] have w: "walk fs (here @ [c]) cs = Inr loc"
            by simp
          from assms(2) Some Dir obtain t' where "fs' (here @ [c]) = Some (Dir t')"
            by blast
          with Cons.IH[OF w] show ?thesis unfolding step[of fs'] by simp
        qed
      qed
    qed
  qed
qed

lemma walk_error:
  "walk fs here cs = Inl e \<Longrightarrow> e = FileNotFoundError \<or> e = NotADirectoryError"
proof (induction cs arbitrary: here)
  case Nil
  then show ?case by simp
next
  case (Cons c cs)
  then show ?case
    by (auto split: if_splits option.splits node.splits)
qed

lemma resolve_stable:
  assumes "resolve fs path = Inr loc"
    and "\<And>l t. fs l = Some (Dir t) \<Longrightarrow> \<exists>t'. fs' l = Some (Dir t')"
  shows "resolve fs' path = Inr loc"
proof -
  from assms(1) have ok: "\<not> has_nul path" "path \<noteq> []"
    and w: "walk fs (if is_absolute path then [[]] else []) (split_slash path) = Inr loc"
    by (auto simp: resolve_def split: if_splits)
  from walk_stable[OF w assms(2)] ok show ?thesis by (simp add: resolve_def)
qed

subsection \<open>The filesystem store\<close>

lemma open_write_success:
  assumes "open_write now fs path data = Inr fs1"
  shows "\<exists>loc. resolve fs path = Inr loc \<and> resolve fs1 path = Inr loc
           \<and> fs1 = fs(loc \<mapsto> File data now)"
proof -
  from assms obtain loc where loc: "resolve fs path = Inr loc"
    by (auto simp: open_write_def split: sum.splits)
  from assms loc have nodir: "\<And>t. fs loc \<noteq> Some (Dir t)"
    and fs1: "fs1 = fs(loc \<mapsto> File data now)"
    by (auto simp: open_write_def split: option.splits node.splits)
  have "resolve fs1 path = Inr loc"
    using loc
  proof (rule resolve_stable)
    fix l t assume "fs l = Some (Dir t)"
    with nodir have "l \<noteq> loc" by auto
    with \<open>fs l = Some (Dir t)\<close> show "\<exists>t'. fs1 l = Some (Dir t')" by (simp add: fs1)
  qed
  with loc fs1 show ?thesis by blast
qed

lemma os_replace_success:
  assumes "os_replace fs src dst = Inr fs2"
    and "resolve fs src = Inr loc1" and "fs loc1 = Some (File content t)"
  shows "\<exists>loc2. resolve fs2 dst = Inr loc2 \<and> fs2 loc2 = Some (File content t)"
proof -
  from assms obtain loc2 where loc2: "resolve fs dst = Inr loc2"
    by (auto simp: os_replace_def split: sum.splits)
  from assms loc2 have nodir: "\<And>t'. fs loc2 \<noteq> Some (Dir t')"
    and fs2: "fs2 = (fs(loc1 := None))(loc2 \<mapsto> File content t)"
    by (auto simp: os_replace_def split: option.splits node.splits)
  have "resolve fs2 dst = Inr loc2"
    using loc2
  proof (rule resolve_stable)
    fix l t' assume d: "fs l = Some (Dir t')"
    with nodir have "l \<noteq> loc2" by auto
    moreover from d assms(3) have "l \<noteq> loc1" by auto
    ultimately show "\<exists>t'. fs2 l = Some (Dir t')" using d by (simp add: fs2)
  qed
  moreover have "fs2 loc2 = Some (File content t)" by (simp add: fs2)
  ultimately show ?thesis by blast
qed

lemma os_utime_success:
  assumes "os_utime fs path t = Inr fs3"
    and "resolve fs path = Inr loc" and "fs loc = Some (File content t0)"
  shows "resolve fs3 path = Inr loc \<and> fs3 loc = Some (File content (floor_ns t))"
proof -
  from assms have fs3: "fs3 = fs(loc \<mapsto> File content (floor_ns t))"
    by (auto simp: os_utime_def split: if_splits)
  have "resolve fs3 path = Inr loc"
    using assms(2)
  proof (rule resolve_stable)
    fix l t' assume d: "fs l = Some (Dir t')"
    with assms(3) have "l \<noteq> loc" by auto
    with d show "\<exists>t'. fs3 l = Some (Dir t')" by (simp add: fs3)
  qed
  then show ?thesis by (simp add: fs3)
qed

text \<open>
  The source that \<^verbatim>\<open>write\<close> hands to \<^verbatim>\<open>os.replace\<close> is the regular file it has just
  written: the case of a directory as the source does not arise.
\<close>

lemma os_replace_after_open_write:
  assumes "open_write now fs src data = Inr fs1"
  shows "os_replace fs1 src dst \<noteq> Inl OSError"
proof -
  from open_write_success[OF assms] obtain loc where
    "resolve fs1 src = Inr loc" "fs1 loc = Some (File data now)"
    by auto
  then show ?thesis
    by (auto simp: os_replace_def resolve_def split: sum.splits option.splits node.splits if_splits
             dest: walk_error)
qed

text \<open>
  When the \<^verbatim>\<open>try\<close> block of \<^verbatim>\<open>write\<close> ends without an exception, the destination path
  names a regular file that holds the data, stamped with the mtime given (as whole
  nanoseconds) or, with none given, by the clock.
\<close>

lemma write_block_success:
  assumes "write_block env fs path tmp_filename data mtime = (None, fs')"
  shows "\<exists>loc. resolve fs' path = Inr loc
           \<and> fs' loc = Some (File data (case mtime of None \<Rightarrow> clock env | Some t \<Rightarrow> floor_ns t))"
proof -
  from assms obtain fs0 fs1 fs2 where
    w: "open_write (clock env) fs0 tmp_filename data = Inr fs1"
    and r: "os_replace fs1 tmp_filename path = Inr fs2"
    and u: "case mtime of None \<Rightarrow> fs' = fs2 | Some t \<Rightarrow> os_utime fs2 path t = Inr fs'"
    by (auto simp: write_block_def split: if_splits prod.splits option.splits sum.splits)
  from open_write_success[OF w] obtain loc1 where
    loc1: "resolve fs1 tmp_filename = Inr loc1" "fs1 loc1 = Some (File data (clock env))"
    by auto
  from os_replace_success[OF r loc1] obtain loc2 where
    loc2: "resolve fs2 path = Inr loc2" "fs2 loc2 = Some (File data (clock env))"
    by blast
  show ?thesis
  proof (cases mtime)
    case None
    with u loc2 show ?thesis by auto
  next
    case (Some t)
    with u have "os_utime fs2 path t = Inr fs'" by simp
    from os_utime_success[OF this loc2] Some show ?thesis by auto
  qed
qed

lemma fs_write_success:
  assumes "fs_write env cache_dir_prefix fs name data mtime = Inr (True, fs')"
  shows "\<not> is_absolute name
         \<and> (\<exists>d loc. root_dir cache_dir_prefix = Some d
                \<and> resolve fs' (path_join d name) = Inr loc
                \<and> fs' loc = Some (File data
                     (case mtime of None \<Rightarrow> clock env | Some t \<Rightarrow> floor_ns t)))"
proof -
  from assms have rel: "\<not> is_absolute name"
    by (auto simp: fs_write_def split: if_splits)
  from assms rel obtain d where d: "root_dir cache_dir_prefix = Some d"
    by (cases "root_dir cache_dir_prefix") (auto simp: fs_write_def)
  from assms rel d have
    "write_block env fs (path_join d name) (path_join d name @ ''.'' @ random_string env)
       data mtime = (None, fs')"
    by (auto simp: fs_write_def Let_def split: prod.splits option.splits if_splits)
  from write_block_success[OF this] rel d show ?thesis by blast
qed


lemma fs_write_then_read:
  assumes "fs_write env cache_dir_prefix fs name data mtime = Inr (True, fs')"
  shows "fs_read cache_dir_prefix fs' name = Inr (universal_newlines data)"
  using fs_write_success[OF assms]
  by (auto simp: fs_read_def open_read_def)

text \<open>A write of \<^verbatim>\<open>m.py\<close> into the store on \<^verbatim>\<open>cache\<close>, from the working directory.\<close>

lemma cache_root_dir: "root_dir cache_root = Some ''cache''"
  by (simp add: cache_root_def FilesystemMetadataStore_def root_dir_def startswith_def)

lemma write_into_cache:
  assumes "utime_in_range t"
  shows "\<exists>tree. fs_write quiet_env cache_root home_tree ''m.py'' data (Some t) = Inr (True, tree)"
    and "\<exists>tree. fs_write quiet_env cache_root home_tree ''m.py'' data None = Inr (True, tree)"
  using assms
  by (simp_all add: fs_write_def cache_root_dir is_absolute_def startswith_def path_join_def
        write_block_def quiet_env_def dirname_def os_makedirs_def has_nul_def home_tree_def
        open_write_def os_replace_def os_utime_def resolve_def Let_def)

subsection \<open>The relational store\<close>

lemma fetchone_None: "fetchone files name = None \<longleftrightarrow> name \<notin> set (map path_col files)"
  by (auto simp: fetchone_def find_None_iff)

lemma fetchone_upsert:
  "\<exists>r. fetchone (upsert files name mt d) name = Some r
       \<and> path_col r = name \<and> mtime_col r = mt \<and> data_col r = d"
proof (cases "name \<in> set (map path_col files)")
  case True
  then have "\<exists>r. find (\<lambda>r. path_col r = name)
                 (map (\<lambda>r. if path_col r = name then r\<lparr>mtime_col := mt, data_col := d\<rparr> else r) files)
               = Some r \<and> path_col r = name \<and> mtime_col r = mt \<and> data_col r = d"
    by (induction files) auto
  with True show ?thesis by (simp add: fetchone_def upsert_def)
next
  case False
  then have "find (\<lambda>r. path_col r = name) (files @ [\<lparr>path_col = name, mtime_col = mt, data_col = d\<rparr>])
             = Some \<lparr>path_col = name, mtime_col = mt, data_col = d\<rparr>"
    by (induction files) auto
  with False show ?thesis by (simp add: fetchone_def upsert_def)
qed

lemma fetchone_remove:
  "sqlite_remove files name = Inr files' \<Longrightarrow> fetchone files' name = None"
  by (auto simp: fetchone_def sqlite_remove_def find_None_iff split: if_splits)

lemma upsert_paths:
  "map path_col (upsert files name mt d)
   = (if name \<in> set (map path_col files) then map path_col files else map path_col files @ [name])"
proof -
  have "map path_col (map (\<lambda>r. if path_col r = name then r\<lparr>mtime_col := mt, data_col := d\<rparr> else r) files)
        = map path_col files"
    by (induction files) auto
  then show ?thesis by (simp add: upsert_def)
qed

lemma upsert_primary_key:
  "distinct (map path_col files) \<Longrightarrow> distinct (map path_col (upsert files name mt d))"
  by (simp add: upsert_paths)

lemma key_count:
  "distinct (map path_col files) \<Longrightarrow> name \<in> set (map path_col files) \<Longrightarrow>
   length (filter (\<lambda>r. path_col r = name) files) = 1"
proof (induction files)
  case Nil
  then show ?case by simp
next
  case (Cons r files)
  show ?case
  proof (cases "path_col r = name")
    case True
    with Cons.prems have "name \<notin> set (map path_col files)" by auto
    then have "filter (\<lambda>r. path_col r = name) files = []"
      by (auto simp: filter_empty_conv)
    with True show ?thesis by simp
  next
    case False
    with Cons show ?thesis by auto
  qed
qed

lemma upsert_others:
  "filter (\<lambda>r. path_col r \<noteq> name) (upsert files name mt d)
   = filter (\<lambda>r. path_col r \<noteq> name) files"
proof -
  have "filter (\<lambda>r. path_col r \<noteq> name)
          (map (\<lambda>r. if path_col r = name then r\<lparr>mtime_col := mt, data_col := d\<rparr> else r) files)
        = filter (\<lambda>r. path_col r \<noteq> name) files"
    by (induction files) auto
  then show ?thesis by (simp add: upsert_def)
qed

lemma sqlite_write_success:
  assumes "sqlite_write env files name data mtime = Inr (True, files')"
  shows "\<not> has_nul name \<and> \<not> has_nul data
         \<and> files' = upsert files name
                      (real_column env (case mtime of None \<Rightarrow> clock env | Some t \<Rightarrow> t)) data"
  using assms by (auto simp: sqlite_write_def Let_def split: if_splits)

lemma sqlite_write_then_read:
  assumes "sqlite_write env files name data mtime = Inr (True, files')"
  shows "sqlite_read files' name = Inr data"
    and "sqlite_getmtime files' name
         = Inr (real_column env (case mtime of None \<Rightarrow> clock env | Some t \<Rightarrow> t))"
proof -
  define t where "t = real_column env (case mtime of None \<Rightarrow> clock env | Some t \<Rightarrow> t)"
  from sqlite_write_success[OF assms] have nul: "\<not> has_nul name"
    and f: "files' = upsert files name t data"
    by (simp_all add: t_def)
  obtain r where r: "fetchone files' name = Some r" "mtime_col r = t" "data_col r = data"
    using fetchone_upsert[of files name t data] f by blast
  show "sqlite_read files' name = Inr data"
    using r nul by (simp add: sqlite_read_def)
  show "sqlite_getmtime files' name
         = Inr (real_column env (case mtime of None \<Rightarrow> clock env | Some t \<Rightarrow> t))"
    using r nul by (simp add: sqlite_getmtime_def t_def)
qed

lemma sqlite_remove_returns:
  "\<not> has_nul name \<Longrightarrow> \<exists>files'. sqlite_remove files name = Inr files'"
  by (simp add: sqlite_remove_def)




lemma float32_123: "float32 123 = 123"
  by code_simp

lemma float32_456: "float32 456 = 456"
  by code_simp

subsection \<open>Failure contract\<close>

text \<open>
  C2 (the code departs from the claim). The relational \<^verbatim>\<open>remove\<close> of a name that has no
  entry, here on the empty table, returns and raises nothing, where \<^verbatim>\<open>read\<close> and
  \<^verbatim>\<open>getmtime\<close> of the same class raise \<^verbatim>\<open>FileNotFoundError\<close> for that name, as the
  filesystem \<^verbatim>\<open>remove\<close> does for a file that is not there.
\<close>

theorem sqlite_remove_missing_returns:
  "sqlite_remove [] ''m.data.json'' = Inr []
   \<and> sqlite_read [] ''m.data.json'' = Inl FileNotFoundError
   \<and> sqlite_getmtime [] ''m.data.json'' = Inl FileNotFoundError
   \<and> fs_remove cache_root home_tree ''m.data.json'' = Inl FileNotFoundError"
  by (simp add: sqlite_remove_def sqlite_read_def sqlite_getmtime_def has_nul_def fetchone_def
        fs_remove_def cache_root_dir os_remove_def resolve_def path_join_def startswith_def
        is_absolute_def home_tree_def)

text \<open>
  C8 (as the code has it). For a filesystem store whose root is not set (created on a
  prefix that starts with the null device, or on the empty string): \<^verbatim>\<open>getmtime\<close> and
  \<^verbatim>\<open>remove\<close> raise \<^verbatim>\<open>FileNotFoundError\<close> for every name; for every name that is not an
  absolute path \<^verbatim>\<open>read\<close> raises \<^verbatim>\<open>FileNotFoundError\<close> and \<^verbatim>\<open>write\<close> returns \<^verbatim>\<open>False\<close> and
  leaves the tree as it was; for an absolute name \<^verbatim>\<open>read\<close> and \<^verbatim>\<open>write\<close> raise
  \<^verbatim>\<open>AssertionError\<close>, the assertion being tested before the root.
\<close>

theorem null_root_store:
  assumes "startswith prefix ''/dev/null'' \<or> prefix = []"
  shows "root_dir (FilesystemMetadataStore prefix) = None
         \<and> fs_getmtime (FilesystemMetadataStore prefix) fs name = Inl FileNotFoundError
         \<and> fs_remove (FilesystemMetadataStore prefix) fs name = Inl FileNotFoundError
         \<and> fs_read (FilesystemMetadataStore prefix) fs name
             = (if is_absolute name then Inl AssertionError else Inl FileNotFoundError)
         \<and> fs_write env (FilesystemMetadataStore prefix) fs name data mtime
             = (if is_absolute name then Inl AssertionError else Inr (False, fs))"
proof -
  have root: "root_dir (FilesystemMetadataStore prefix) = None"
    using assms by (auto simp: FilesystemMetadataStore_def root_dir_def)
  then show ?thesis
    by (simp add: fs_getmtime_def fs_remove_def fs_read_def fs_write_def)
qed

theorem null_root_store_witness:
  "root_dir null_root = None
   \<and> fs_getmtime null_root Map.empty ''m.meta.json'' = Inl FileNotFoundError
   \<and> fs_remove null_root Map.empty ''m.meta.json'' = Inl FileNotFoundError
   \<and> fs_read null_root Map.empty ''m.meta.json'' = Inl FileNotFoundError
   \<and> fs_write quiet_env null_root Map.empty ''m.meta.json'' ''{}'' (Some 123)
       = Inr (False, Map.empty)"
proof -
  have devnull: "startswith ''/dev/null/3.11'' ''/dev/null'' \<or> ''/dev/null/3.11'' = []"
    by (simp add: startswith_def)
  have relative: "\<not> is_absolute ''m.meta.json''"
    by (simp add: is_absolute_def startswith_def)
  from null_root_store [OF devnull, of Map.empty "''m.meta.json''" quiet_env "''{}''" "Some 123"]
  show ?thesis using relative by (simp add: null_root_def)
qed

theorem null_root_absolute_name_counterexample:
  "fs_read null_root Map.empty ''/m.meta.json'' = Inl AssertionError
   \<and> fs_read null_root Map.empty ''/m.meta.json'' \<noteq> Inl FileNotFoundError
   \<and> fs_write quiet_env null_root Map.empty ''/m.meta.json'' ''{}'' (Some 123) = Inl AssertionError
   \<and> fs_write quiet_env null_root Map.empty ''/m.meta.json'' ''{}'' (Some 123)
       \<noteq> Inr (False, Map.empty)"
  by (simp add: fs_read_def fs_write_def is_absolute_def startswith_def)

subsection \<open>Round trips\<close>




text \<open>
  C6 (the code departs from the claim). \<^verbatim>\<open>write("m.py", "a\rb")\<close> into the filesystem
  store succeeds, and \<^verbatim>\<open>read("m.py")\<close> then returns \<^verbatim>\<open>"a\nb"\<close>: the file is read back in
  text mode with universal newlines, so a carriage return in the data comes back as a
  line feed. The relational store returns the same data as written.
\<close>

theorem fs_read_translates_carriage_return:
  "\<exists>tree files.
     fs_write quiet_env cache_root home_tree ''m.py'' cr_data None = Inr (True, tree)
     \<and> fs_read cache_root tree ''m.py'' = Inr lf_data
     \<and> lf_data \<noteq> cr_data
     \<and> sqlite_write quiet_env [] ''m.py'' cr_data None = Inr (True, files)
     \<and> sqlite_read files ''m.py'' = Inr cr_data"
proof -
  have in_range: "utime_in_range 0"
    by (simp add: utime_in_range_def)
  from write_into_cache(2)[OF in_range, of cr_data] obtain tree where
    w: "fs_write quiet_env cache_root home_tree ''m.py'' cr_data None = Inr (True, tree)"
    by blast
  have "universal_newlines cr_data = lf_data" by (simp add: cr_data_def lf_data_def)
  with fs_write_then_read[OF w] have r: "fs_read cache_root tree ''m.py'' = Inr lf_data"
    by simp
  have ne: "lf_data \<noteq> cr_data" by (simp add: cr_data_def lf_data_def)
  have "\<exists>files. sqlite_write quiet_env [] ''m.py'' cr_data None = Inr (True, files)"
    by (simp add: sqlite_write_def quiet_env_def has_nul_def cr_data_def)
  then obtain files where
    s: "sqlite_write quiet_env [] ''m.py'' cr_data None = Inr (True, files)"
    by blast
  from sqlite_write_then_read(1)[OF s] w r ne s show ?thesis by blast
qed

subsection \<open>Upsert\<close>

text \<open>
  C9. In the relational store a second successful \<^verbatim>\<open>write\<close> to a name replaces the data and
  the mtime of the entry: afterwards \<^verbatim>\<open>read\<close> returns the second data and \<^verbatim>\<open>getmtime\<close> what
  the \<^verbatim>\<open>REAL\<close> column gives back for the second mtime (for the clock reading of the second
  write when it gives none), which is that mtime itself whenever the column gives it back
  unchanged; the table (whose keys are distinct, \<^verbatim>\<open>path\<close> being the primary key) holds
  exactly one row for the name, its keys are still distinct, and the rows of other names are
  as they were. In particular \<^verbatim>\<open>write("m.py", "x", 123.0)\<close> then
  \<^verbatim>\<open>write("m.py", "y", 456.0)\<close> gives \<^verbatim>\<open>read("m.py") = "y"\<close> and \<^verbatim>\<open>getmtime("m.py") = 456.0\<close>,
  a single-precision column giving both numbers back unchanged.
\<close>

theorem sqlite_write_upsert:
  assumes "distinct (map path_col files)"
    and "sqlite_write env1 files name data1 mtime1 = Inr (True, files1)"
    and "sqlite_write env2 files1 name data2 mtime2 = Inr (True, files2)"
  shows "sqlite_read files2 name = Inr data2
         \<and> sqlite_getmtime files2 name
             = Inr (real_column env2 (case mtime2 of None \<Rightarrow> clock env2 | Some t \<Rightarrow> t))
         \<and> (mtime2 = Some t2 \<and> real_column env2 t2 = t2
              \<longrightarrow> sqlite_getmtime files2 name = Inr t2)
         \<and> length (filter (\<lambda>r. path_col r = name) files2) = 1
         \<and> distinct (map path_col files2)
         \<and> filter (\<lambda>r. path_col r \<noteq> name) files2 = filter (\<lambda>r. path_col r \<noteq> name) files"
proof -
  define t1 where "t1 = real_column env1 (case mtime1 of None \<Rightarrow> clock env1 | Some t \<Rightarrow> t)"
  define t2' where "t2' = real_column env2 (case mtime2 of None \<Rightarrow> clock env2 | Some t \<Rightarrow> t)"
  have f1: "files1 = upsert files name t1 data1"
    using sqlite_write_success[OF assms(2)] by (simp add: t1_def)
  have f2: "files2 = upsert files1 name t2' data2"
    using sqlite_write_success[OF assms(3)] by (simp add: t2'_def)
  have rd: "sqlite_read files2 name = Inr data2"
    using assms(3) by (rule sqlite_write_then_read)
  have gm: "sqlite_getmtime files2 name = Inr t2'"
    unfolding t2'_def using assms(3) by (rule sqlite_write_then_read)
  have pk1: "distinct (map path_col files1)"
    unfolding f1 using assms(1) by (rule upsert_primary_key)
  have pk2: "distinct (map path_col files2)"
    unfolding f2 using pk1 by (rule upsert_primary_key)
  have "name \<in> set (map path_col files2)"
    unfolding f2 by (simp add: upsert_paths)
  with pk2 have one: "length (filter (\<lambda>r. path_col r = name) files2) = 1"
    by (rule key_count)
  have others: "filter (\<lambda>r. path_col r \<noteq> name) files2 = filter (\<lambda>r. path_col r \<noteq> name) files"
    by (simp add: f1 f2 upsert_others)
  have exact: "mtime2 = Some t2 \<and> real_column env2 t2 = t2
                 \<longrightarrow> sqlite_getmtime files2 name = Inr t2"
    using gm by (auto simp: t2'_def)
  show ?thesis
    using rd gm exact pk2 one others by (simp add: t2'_def)
qed

theorem sqlite_write_upsert_witness:
  "sqlite_write quiet_env [] ''m.py'' ''x'' (Some 123)
       = Inr (True, [\<lparr>path_col = ''m.py'', mtime_col = 123, data_col = ''x''\<rparr>])
   \<and> sqlite_write quiet_env [\<lparr>path_col = ''m.py'', mtime_col = 123, data_col = ''x''\<rparr>]
         ''m.py'' ''y'' (Some 456)
       = Inr (True, [\<lparr>path_col = ''m.py'', mtime_col = 456, data_col = ''y''\<rparr>])
   \<and> sqlite_read [\<lparr>path_col = ''m.py'', mtime_col = 456, data_col = ''y''\<rparr>] ''m.py'' = Inr ''y''
   \<and> sqlite_getmtime [\<lparr>path_col = ''m.py'', mtime_col = 456, data_col = ''y''\<rparr>] ''m.py''
       = Inr 456
   \<and> length (filter (\<lambda>r. path_col r = ''m.py'')
               [\<lparr>path_col = ''m.py'', mtime_col = 456, data_col = ''y''\<rparr>]) = 1"
proof -
  have key: "distinct (map path_col ([] :: files_table))" by simp
  have w1: "sqlite_write quiet_env [] ''m.py'' ''x'' (Some 123)
       = Inr (True, [\<lparr>path_col = ''m.py'', mtime_col = 123, data_col = ''x''\<rparr>])"
    by (simp add: sqlite_write_def upsert_def quiet_env_def has_nul_def float32_123)
  have w2: "sqlite_write quiet_env [\<lparr>path_col = ''m.py'', mtime_col = 123, data_col = ''x''\<rparr>]
         ''m.py'' ''y'' (Some 456)
       = Inr (True, [\<lparr>path_col = ''m.py'', mtime_col = 456, data_col = ''y''\<rparr>])"
    by (simp add: sqlite_write_def upsert_def quiet_env_def has_nul_def float32_456)
  have exact: "Some (456 :: rat) = Some 456 \<and> real_column quiet_env 456 = 456"
    by (simp add: quiet_env_def float32_456)
  note inst = sqlite_write_upsert [OF key w1 w2, of 456]
  have rd: "sqlite_read [\<lparr>path_col = ''m.py'', mtime_col = 456, data_col = ''y''\<rparr>] ''m.py''
            = Inr ''y''"
    by (rule inst[THEN conjunct1])
  have gm: "sqlite_getmtime [\<lparr>path_col = ''m.py'', mtime_col = 456, data_col = ''y''\<rparr>] ''m.py''
            = Inr 456"
    using inst[THEN conjunct2, THEN conjunct2, THEN conjunct1] exact by (rule mp)
  have one: "length (filter (\<lambda>r. path_col r = ''m.py'')
               [\<lparr>path_col = ''m.py'', mtime_col = 456, data_col = ''y''\<rparr>]) = 1"
    by (rule inst[THEN conjunct2, THEN conjunct2, THEN conjunct2, THEN conjunct1])
  from w1 w2 rd gm one show ?thesis by blast
qed

section \<open>Properties of the accumulating scheduler\<close>

lemma those_map_Some:
  "\<forall>x \<in> set xs. g x \<noteq> None \<Longrightarrow>
   \<exists>ps. those (map g xs) = Some ps \<and> map g xs = map Some ps"
proof (induction xs)
  case Nil
  then show ?case by simp
next
  case (Cons x xs)
  then obtain ps where "those (map g xs) = Some ps" "map g xs = map Some ps" by auto
  moreover from Cons.prems obtain p where "g x = Some p" by auto
  ultimately show ?case by simp
qed

lemma layer_inters_modules: "set (layer_inters cfg layer) \<subseteq> set (cfg_modules cfg)"
  by (auto simp: layer_inters_def Let_def)

lemma layer_inters_distinct: "distinct (layer_inters cfg layer)"
  by (simp add: layer_inters_def Let_def)

lemma flush_returns:
  assumes "\<forall>paths. paths \<noteq> [] \<longrightarrow>
             (\<exists>results. process_layer (cfg_getsize cfg) (cfg_execute_command cfg) paths = Inr results)"
    and "set (cfg_modules cfg) \<subseteq> dom (cfg_graph cfg)"
    and "set (curr_inters st) \<subseteq> set (cfg_modules cfg)"
    and "curr_inters st \<noteq> []"
  shows "\<exists>paths results.
           flush cfg st = Inr (st\<lparr>printed := printed st @ [curr_inters st],
                                  proc_sets := proc_sets st @ [paths],
                                  result_list := result_list st @ [results],
                                  curr_inters := []\<rparr>)
           \<and> map (cfg_graph cfg) (curr_inters st) = map Some paths
           \<and> process_layer (cfg_getsize cfg) (cfg_execute_command cfg) paths = Inr results"
proof -
  have "\<forall>m \<in> set (curr_inters st). cfg_graph cfg m \<noteq> None"
    using assms(2,3) by auto
  from those_map_Some[OF this] obtain paths where
    paths: "those (map (cfg_graph cfg) (curr_inters st)) = Some paths"
      "map (cfg_graph cfg) (curr_inters st) = map Some paths"
    by blast
  from paths(2) assms(4) have "paths \<noteq> []" by auto
  with assms(1) obtain results where
    results: "process_layer (cfg_getsize cfg) (cfg_execute_command cfg) paths = Inr results"
    by blast
  have "flush cfg st = Inr (st\<lparr>printed := printed st @ [curr_inters st],
                                  proc_sets := proc_sets st @ [paths],
                                  result_list := result_list st @ [results],
                                  curr_inters := []\<rparr>)"
    using paths(1) results by (simp add: flush_def)
  with paths(2) results show ?thesis by blast
qed

lemma scheduler_step_invariant:
  assumes returns: "\<forall>paths. paths \<noteq> [] \<longrightarrow>
             (\<exists>results. process_layer (cfg_getsize cfg) (cfg_execute_command cfg) paths = Inr results)"
    and graph: "set (cfg_modules cfg) \<subseteq> dom (cfg_graph cfg)"
    and inv: "loop_invariant cfg st"
  shows "\<exists>st'. scheduler_step cfg st layer = Inr st'
           \<and> loop_invariant cfg st'
           \<and> concat (printed st') @ curr_inters st'
               = concat (printed st) @ List.union (layer_inters cfg layer) (curr_inters st)
           \<and> (if 16
                    \<le> length (List.union (layer_inters cfg layer) (curr_inters st))
                then printed st'
                       = printed st @ [List.union (layer_inters cfg layer) (curr_inters st)]
                     \<and> curr_inters st' = []
                else printed st' = printed st
                     \<and> curr_inters st' = List.union (layer_inters cfg layer) (curr_inters st))"
proof -
  define pending where "pending = List.union (layer_inters cfg layer) (curr_inters st)"
  define st1 where "st1 = st\<lparr>curr_inters := pending\<rparr>"
  have d: "distinct pending"
    using inv by (simp add: pending_def loop_invariant_def)
  have sub: "set pending \<subseteq> set (cfg_modules cfg)"
    using inv layer_inters_modules[of cfg layer] by (auto simp: pending_def loop_invariant_def)
  have step: "scheduler_step cfg st layer
              = (if 16 \<le> length pending then flush cfg st1 else Inr st1)"
    by (simp add: scheduler_step_def Let_def st1_def pending_def)
  show ?thesis
  proof (cases "16 \<le> length pending")
    case True
    then have ne: "curr_inters st1 \<noteq> []" by (auto simp: st1_def)
    have sub1: "set (curr_inters st1) \<subseteq> set (cfg_modules cfg)" using sub by (simp add: st1_def)
    from flush_returns[OF returns graph sub1 ne] obtain paths results where
      fl: "flush cfg st1 = Inr (st1\<lparr>printed := printed st1 @ [curr_inters st1],
                                  proc_sets := proc_sets st1 @ [paths],
                                  result_list := result_list st1 @ [results],
                                  curr_inters := []\<rparr>)"
      and ps: "map (cfg_graph cfg) (curr_inters st1) = map Some paths"
      and rs: "process_layer (cfg_getsize cfg) (cfg_execute_command cfg) paths = Inr results"
      by blast
    define st' where "st' = st1\<lparr>printed := printed st1 @ [curr_inters st1],
                                  proc_sets := proc_sets st1 @ [paths],
                                  result_list := result_list st1 @ [results],
                                  curr_inters := []\<rparr>"
    have "scheduler_step cfg st layer = Inr st'"
      using step True fl by (simp add: st'_def)
    moreover have "loop_invariant cfg st'"
      using inv True d ps rs
      by (simp add: loop_invariant_def st'_def st1_def list_all2_appendI)
    moreover have "concat (printed st') @ curr_inters st' = concat (printed st) @ pending"
      by (simp add: st'_def st1_def)
    moreover have "printed st' = printed st @ [pending] \<and> curr_inters st' = []"
      by (simp add: st'_def st1_def)
    ultimately show ?thesis using True unfolding pending_def by (intro exI[of _ st']) simp
  next
    case False
    then have "scheduler_step cfg st layer = Inr st1" using step by simp
    moreover have "loop_invariant cfg st1"
      using inv False d sub by (simp add: loop_invariant_def st1_def)
    moreover have "concat (printed st1) @ curr_inters st1 = concat (printed st) @ pending"
      by (simp add: st1_def)
    moreover have "printed st1 = printed st \<and> curr_inters st1 = pending"
      by (simp add: st1_def)
    ultimately show ?thesis using False unfolding pending_def by (intro exI[of _ st1]) simp
  qed
qed

lemma accumulate_invariant:
  assumes returns: "\<forall>paths. paths \<noteq> [] \<longrightarrow>
             (\<exists>results. process_layer (cfg_getsize cfg) (cfg_execute_command cfg) paths = Inr results)"
    and graph: "set (cfg_modules cfg) \<subseteq> dom (cfg_graph cfg)"
    and inv: "loop_invariant cfg st"
  shows "\<exists>st'. accumulate cfg st layers = Inr st'
           \<and> loop_invariant cfg st'
           \<and> set (concat (printed st') @ curr_inters st')
               = set (concat (printed st) @ curr_inters st)
                 \<union> (\<Union>layer \<in> set layers. set (layer_inters cfg layer))
           \<and> (distinct (concat (printed st) @ curr_inters st
                          @ concat (map (layer_inters cfg) layers))
                \<longrightarrow> distinct (concat (printed st') @ curr_inters st'))"
  using inv
proof (induction layers arbitrary: st)
  case Nil
  then show ?case by simp
next
  case (Cons layer layers)
  from scheduler_step_invariant[OF returns graph Cons.prems, of layer] obtain st1 where
    s1: "scheduler_step cfg st layer = Inr st1"
    and i1: "loop_invariant cfg st1"
    and q1: "concat (printed st1) @ curr_inters st1
               = concat (printed st) @ List.union (layer_inters cfg layer) (curr_inters st)"
    by (elim exE conjE)
  from Cons.IH[OF i1] obtain st' where
    a: "accumulate cfg st1 layers = Inr st'"
    and i: "loop_invariant cfg st'"
    and cover: "set (concat (printed st') @ curr_inters st')
               = set (concat (printed st1) @ curr_inters st1)
                 \<union> (\<Union>layer \<in> set layers. set (layer_inters cfg layer))"
    and once: "distinct (concat (printed st1) @ curr_inters st1
                          @ concat (map (layer_inters cfg) layers))
                \<longrightarrow> distinct (concat (printed st') @ curr_inters st')"
    by blast
  have run: "accumulate cfg st (layer # layers) = Inr st'" using s1 a by simp
  have set1: "set (concat (printed st1) @ curr_inters st1)
              = set (concat (printed st) @ curr_inters st) \<union> set (layer_inters cfg layer)"
    by (simp only: q1) auto
  have cover': "set (concat (printed st') @ curr_inters st')
               = set (concat (printed st) @ curr_inters st)
                 \<union> (\<Union>layer \<in> set (layer # layers). set (layer_inters cfg layer))"
    using cover set1 by auto
  have once': "distinct (concat (printed st') @ curr_inters st')"
    if dist: "distinct (concat (printed st) @ curr_inters st
                          @ concat (map (layer_inters cfg) (layer # layers)))"
  proof -
    have "distinct ((concat (printed st) @ List.union (layer_inters cfg layer) (curr_inters st))
                          @ concat (map (layer_inters cfg) layers))"
      using dist by (simp only: distinct_append set_append set_union distinct_union
                       concat.simps list.simps) blast
    then have "distinct ((concat (printed st1) @ curr_inters st1)
                          @ concat (map (layer_inters cfg) layers))"
      by (simp only: q1)
    then show ?thesis using once by simp
  qed
  from run i cover' once' show ?case by blast
qed

lemma accumulate_snoc:
  "accumulate cfg st (layers @ [layer])
   = (case accumulate cfg st layers of
        Inl e \<Rightarrow> Inl e
      | Inr st' \<Rightarrow> scheduler_step cfg st' layer)"
  by (induction layers arbitrary: st) (auto split: sum.splits)

lemma initial_invariant: "loop_invariant cfg initial_state"
  by (simp add: loop_invariant_def initial_state_def)

text \<open>
  Let every call of \<^verbatim>\<open>process_layer\<close> on a list that is not empty return, and let every
  source module have its entry in the graph. Then the loop over the layers returns
  (state \<open>acc\<close>) and so does the whole run (state \<open>final\<close>), and:
  \<^item> at layer \<open>k\<close> the modules of the layer are united with the pending set; if the
    united set has at least 16 elements it is flushed, that is printed and handed to
    \<^verbatim>\<open>process_layer\<close>, and the pending set is empty afterwards; otherwise nothing is
    flushed and the united set stays pending;
  \<^item> after every layer the pending list has no repetition (its length is the number of
    distinct pending modules) and fewer than 16 elements, and the modules flushed so far
    together with the pending ones are exactly the modules of the layers walked so far;
    every flush of the loop held at least 16;
  \<^item> after the last layer there is one more flush, of the pending set, if and only if
    that set is not empty;
  \<^item> at the end the pending set is empty, no flush was empty or held a module twice, and
    the flushes together hold exactly the modules of all layers; if no module occurs in
    two layers, no module occurs in two flushes;
  \<^item> the paths handed to \<^verbatim>\<open>process_layer\<close> are those of the modules flushed, and the
    results kept for a flush are what \<^verbatim>\<open>process_layer\<close> returned for its paths.
\<close>

lemma scheduler_when_flushes_return:
  fixes cfg :: "('n, 'm, 'r) scheduler_input"
  assumes returns: "\<forall>paths. paths \<noteq> [] \<longrightarrow>
             (\<exists>results. process_layer (cfg_getsize cfg) (cfg_execute_command cfg) paths = Inr results)"
    and graph: "set (cfg_modules cfg) \<subseteq> dom (cfg_graph cfg)"
  shows "\<exists>acc final.
           accumulate cfg initial_state layers = Inr acc
         \<and> scheduler cfg layers = Inr final
         \<and> (\<forall>k < length layers. \<exists>st st'.
               accumulate cfg initial_state (take k layers) = Inr st
               \<and> accumulate cfg initial_state (take (Suc k) layers) = Inr st'
               \<and> (if 16
                        \<le> length (List.union (layer_inters cfg (layers ! k)) (curr_inters st))
                    then printed st'
                           = printed st @ [List.union (layer_inters cfg (layers ! k)) (curr_inters st)]
                         \<and> curr_inters st' = []
                    else printed st' = printed st
                         \<and> curr_inters st'
                             = List.union (layer_inters cfg (layers ! k)) (curr_inters st)))
         \<and> (\<forall>k \<le> length layers. \<exists>st.
               accumulate cfg initial_state (take k layers) = Inr st
               \<and> distinct (curr_inters st)
               \<and> length (curr_inters st) < 16
               \<and> set (concat (printed st)) \<union> set (curr_inters st)
                   = (\<Union>layer \<in> set (take k layers). set (layer_inters cfg layer)))
         \<and> (\<forall>f \<in> set (printed acc). 16 \<le> length f)
         \<and> printed final = printed acc @ (if curr_inters acc = [] then [] else [curr_inters acc])
         \<and> curr_inters final = []
         \<and> (\<forall>f \<in> set (printed final). f \<noteq> [] \<and> distinct f)
         \<and> set (concat (printed final)) = (\<Union>layer \<in> set layers. set (layer_inters cfg layer))
         \<and> (distinct (concat (map (layer_inters cfg) layers))
              \<longrightarrow> distinct (concat (printed final)))
         \<and> map (map (cfg_graph cfg)) (printed final) = map (map Some) (proc_sets final)
         \<and> list_all2 (\<lambda>paths results.
               process_layer (cfg_getsize cfg) (cfg_execute_command cfg) paths = Inr results)
               (proc_sets final) (result_list final)"
proof -
  note init = initial_invariant
  have prefix: "\<exists>st. accumulate cfg initial_state ls = Inr st
               \<and> loop_invariant cfg st
               \<and> set (concat (printed st)) \<union> set (curr_inters st)
                   = (\<Union>layer \<in> set ls. set (layer_inters cfg layer))
               \<and> (distinct (concat (map (layer_inters cfg) ls))
                    \<longrightarrow> distinct (concat (printed st) @ curr_inters st))" for ls
  proof -
    from accumulate_invariant[OF returns graph init, of ls] obtain st where
      st: "accumulate cfg initial_state ls = Inr st
         \<and> loop_invariant cfg st
         \<and> set (concat (printed st) @ curr_inters st)
               = set (concat (printed (initial_state :: ('m, 'r) scheduler_state))
                      @ curr_inters (initial_state :: ('m, 'r) scheduler_state))
                 \<union> (\<Union>layer \<in> set ls. set (layer_inters cfg layer))
         \<and> (distinct (concat (printed (initial_state :: ('m, 'r) scheduler_state))
                          @ curr_inters (initial_state :: ('m, 'r) scheduler_state)
                          @ concat (map (layer_inters cfg) ls))
                \<longrightarrow> distinct (concat (printed st) @ curr_inters st))" ..
    note a = st[THEN conjunct1]
      and i = st[THEN conjunct2, THEN conjunct1]
      and c = st[THEN conjunct2, THEN conjunct2, THEN conjunct1]
      and o = st[THEN conjunct2, THEN conjunct2, THEN conjunct2]
    have c': "set (concat (printed st)) \<union> set (curr_inters st)
                   = (\<Union>layer \<in> set ls. set (layer_inters cfg layer))"
      using c by (simp add: initial_state_def)
    have o': "distinct (concat (map (layer_inters cfg) ls))
                    \<longrightarrow> distinct (concat (printed st) @ curr_inters st)"
      using o by (simp add: initial_state_def)
    show ?thesis by (intro exI[of _ st] conjI) (fact a i c' o')+
  qed
  from prefix[of layers] obtain acc where
    st: "accumulate cfg initial_state layers = Inr acc
       \<and> loop_invariant cfg acc
       \<and> set (concat (printed acc)) \<union> set (curr_inters acc)
             = (\<Union>layer \<in> set layers. set (layer_inters cfg layer))
       \<and> (distinct (concat (map (layer_inters cfg) layers))
              \<longrightarrow> distinct (concat (printed acc) @ curr_inters acc))" ..
  note acc = st[THEN conjunct1]
    and inv = st[THEN conjunct2, THEN conjunct1]
    and cover = st[THEN conjunct2, THEN conjunct2, THEN conjunct1]
    and once = st[THEN conjunct2, THEN conjunct2, THEN conjunct2]
  have prefixes: "\<forall>k \<le> length layers. \<exists>st.
               accumulate cfg initial_state (take k layers) = Inr st
               \<and> distinct (curr_inters st)
               \<and> length (curr_inters st) < 16
               \<and> set (concat (printed st)) \<union> set (curr_inters st)
                   = (\<Union>layer \<in> set (take k layers). set (layer_inters cfg layer))"
  proof (intro allI impI)
    fix k
    from prefix[of "take k layers"] obtain st where
      st: "accumulate cfg initial_state (take k layers) = Inr st
         \<and> loop_invariant cfg st
         \<and> set (concat (printed st)) \<union> set (curr_inters st)
             = (\<Union>layer \<in> set (take k layers). set (layer_inters cfg layer))
         \<and> (distinct (concat (map (layer_inters cfg) (take k layers)))
              \<longrightarrow> distinct (concat (printed st) @ curr_inters st))" ..
    then have "accumulate cfg initial_state (take k layers) = Inr st
         \<and> distinct (curr_inters st)
               \<and> length (curr_inters st) < 16
         \<and> set (concat (printed st)) \<union> set (curr_inters st)
             = (\<Union>layer \<in> set (take k layers). set (layer_inters cfg layer))"
      by (simp add: loop_invariant_def)
    then show "\<exists>st. accumulate cfg initial_state (take k layers) = Inr st
               \<and> distinct (curr_inters st)
               \<and> length (curr_inters st) < 16
               \<and> set (concat (printed st)) \<union> set (curr_inters st)
                   = (\<Union>layer \<in> set (take k layers). set (layer_inters cfg layer))"
      by (rule exI)
  qed
  have steps: "\<forall>k < length layers. \<exists>st st'.
               accumulate cfg initial_state (take k layers) = Inr st
               \<and> accumulate cfg initial_state (take (Suc k) layers) = Inr st'
               \<and> (if 16
                        \<le> length (List.union (layer_inters cfg (layers ! k)) (curr_inters st))
                    then printed st'
                           = printed st @ [List.union (layer_inters cfg (layers ! k)) (curr_inters st)]
                         \<and> curr_inters st' = []
                    else printed st' = printed st
                         \<and> curr_inters st'
                             = List.union (layer_inters cfg (layers ! k)) (curr_inters st))"
  proof (intro allI impI)
    fix k assume k: "k < length layers"
    from prefix[of "take k layers"] obtain st where
      st: "accumulate cfg initial_state (take k layers) = Inr st" "loop_invariant cfg st"
      by (elim exE conjE)
    from scheduler_step_invariant[OF returns graph st(2), of "layers ! k"] obtain st' where
      st': "scheduler_step cfg st (layers ! k) = Inr st'"
      and cases: "if 16
                        \<le> length (List.union (layer_inters cfg (layers ! k)) (curr_inters st))
                    then printed st'
                           = printed st @ [List.union (layer_inters cfg (layers ! k)) (curr_inters st)]
                         \<and> curr_inters st' = []
                    else printed st' = printed st
                         \<and> curr_inters st'
                             = List.union (layer_inters cfg (layers ! k)) (curr_inters st)"
      by (elim exE conjE)
    have "take (Suc k) layers = take k layers @ [layers ! k]"
      using k by (rule take_Suc_conv_app_nth)
    then have "accumulate cfg initial_state (take (Suc k) layers) = Inr st'"
      using st(1) st' by (simp add: accumulate_snoc)
    with st(1) cases
    show "\<exists>st st'.
               accumulate cfg initial_state (take k layers) = Inr st
               \<and> accumulate cfg initial_state (take (Suc k) layers) = Inr st'
               \<and> (if 16
                        \<le> length (List.union (layer_inters cfg (layers ! k)) (curr_inters st))
                    then printed st'
                           = printed st @ [List.union (layer_inters cfg (layers ! k)) (curr_inters st)]
                         \<and> curr_inters st' = []
                    else printed st' = printed st
                         \<and> curr_inters st'
                             = List.union (layer_inters cfg (layers ! k)) (curr_inters st))"
      by (intro exI[of _ st] exI[of _ st'] conjI)
  qed
  have reached: "\<forall>f \<in> set (printed acc). 16 \<le> length f"
    and each: "\<forall>f \<in> set (printed acc). f \<noteq> [] \<and> distinct f"
    and paths: "map (map (cfg_graph cfg)) (printed acc) = map (map Some) (proc_sets acc)"
    and results: "list_all2 (\<lambda>paths results.
               process_layer (cfg_getsize cfg) (cfg_execute_command cfg) paths = Inr results)
               (proc_sets acc) (result_list acc)"
    and pending: "distinct (curr_inters acc)" "set (curr_inters acc) \<subseteq> set (cfg_modules cfg)"
    using inv by (auto simp: loop_invariant_def list_all_iff)
  show ?thesis
  proof (cases "curr_inters acc = []")
    case True
    then have fin: "scheduler cfg layers = Inr acc" using acc by (simp add: scheduler_def)
    have "set (concat (printed acc)) = (\<Union>layer \<in> set layers. set (layer_inters cfg layer))"
      using cover True by simp
    moreover have "distinct (concat (map (layer_inters cfg) layers))
              \<longrightarrow> distinct (concat (printed acc))"
      using once True by simp
    moreover have "printed acc = printed acc @ (if curr_inters acc = [] then [] else [curr_inters acc])"
      using True by simp
    ultimately have f:
      "set (concat (printed acc)) = (\<Union>layer \<in> set layers. set (layer_inters cfg layer))"
      "distinct (concat (map (layer_inters cfg) layers)) \<longrightarrow> distinct (concat (printed acc))"
      "printed acc = printed acc @ (if curr_inters acc = [] then [] else [curr_inters acc])"
      by blast+
    show ?thesis
      by (intro exI[of _ acc] conjI) (fact acc fin steps prefixes reached each paths results True f)+
  next
    case False
    from flush_returns[OF returns graph pending(2) False] obtain ps rs where
      fl: "flush cfg acc = Inr (acc\<lparr>printed := printed acc @ [curr_inters acc],
                                  proc_sets := proc_sets acc @ [ps],
                                  result_list := result_list acc @ [rs],
                                  curr_inters := []\<rparr>)"
      and ps: "map (cfg_graph cfg) (curr_inters acc) = map Some ps"
      and prs: "process_layer (cfg_getsize cfg) (cfg_execute_command cfg) ps = Inr rs"
      by blast
    define final where "final = acc\<lparr>printed := printed acc @ [curr_inters acc],
                                  proc_sets := proc_sets acc @ [ps],
                                  result_list := result_list acc @ [rs],
                                  curr_inters := []\<rparr>"
    have fin: "scheduler cfg layers = Inr final"
      using acc False fl by (simp add: scheduler_def final_def)
    have p: "printed final = printed acc @ (if curr_inters acc = [] then [] else [curr_inters acc])"
      using False by (simp add: final_def)
    have c: "curr_inters final = []" by (simp add: final_def)
    have e: "\<forall>f \<in> set (printed final). f \<noteq> [] \<and> distinct f"
      using each pending(1) False by (auto simp: final_def)
    have s: "set (concat (printed final)) = (\<Union>layer \<in> set layers. set (layer_inters cfg layer))"
      using cover by (simp add: final_def)
    have d: "distinct (concat (map (layer_inters cfg) layers))
              \<longrightarrow> distinct (concat (printed final))"
      using once by (simp add: final_def)
    have g: "map (map (cfg_graph cfg)) (printed final) = map (map Some) (proc_sets final)"
      using paths ps by (simp add: final_def)
    have r: "list_all2 (\<lambda>paths results.
               process_layer (cfg_getsize cfg) (cfg_execute_command cfg) paths = Inr results)
               (proc_sets final) (result_list final)"
      using results prs by (simp add: final_def list_all2_appendI)
    show ?thesis
      by (intro exI[of _ acc] exI[of _ final] conjI) (fact acc fin steps prefixes reached p c e s d g r)+
  qed
qed

text \<open>
  C4 (the code departs from the claim). A project of one module whose file is empty:
  the loop leaves the module pending (one is fewer than 16), the final flush hands its
  path to \<^verbatim>\<open>process_layer\<close>, and the partitioner raises \<^verbatim>\<open>IndexError\<close> there, as it does
  for every flush of empty files. The run ends with the exception; the pending module is
  dispatched in no flush.
\<close>

theorem scheduler_empty_file_raises:
  "accumulate empty_file_input initial_state empty_file_layers
     = Inr \<lparr>curr_inters = [''pkg''], proc_sets = [], result_list = [], printed = []\<rparr>
   \<and> scheduler empty_file_input empty_file_layers = Inl IndexError"
  by code_simp

end
